theory Spec2Isabelle
  imports Main "HOL-Library.List_Lexorder" "HOL-Library.Sublist"
begin

section \<open>Text and character classes\<close>

text \<open>
  A Python \<^verbatim>\<open>str\<close> is a sequence of Unicode code points; \<^verbatim>\<open>sorted\<close> compares two
  of them code point by code point, a proper prefix being smaller. A code point is a
  natural number here, a text a list of them, ordered lexicographically.
  \<open>py\<close> reads an ASCII literal as such a text.
\<close>

type_synonym cp = nat
type_synonym pystr = "cp list"

definition py :: "string \<Rightarrow> pystr" where
  "py s = map of_char s"

text \<open>
  The patterns of \<^verbatim>\<open>extract_indicators\<close> are compiled from \<^verbatim>\<open>str\<close>, without
  \<^verbatim>\<open>re.ASCII\<close>: \<^verbatim>\<open>\d\<close>, \<^verbatim>\<open>\s\<close>, \<^verbatim>\<open>\b\<close> and \<^verbatim>\<open>re.IGNORECASE\<close> follow the
  Unicode character database of the Python runtime. That database is not part of the
  repository. Its ASCII part is written out below; what it says of the code points from
  128 on is a parameter \<open>U\<close> of every definition that depends on it.
\<close>

record ucd =
  uni_isalpha :: "cp \<Rightarrow> bool"
  uni_isdecimal :: "cp \<Rightarrow> bool"
  uni_isdigit :: "cp \<Rightarrow> bool"
  uni_isnumeric :: "cp \<Rightarrow> bool"
  uni_isspace :: "cp \<Rightarrow> bool"
  uni_decimal :: "cp \<Rightarrow> nat"
  uni_caseless :: "cp \<Rightarrow> cp \<Rightarrow> bool"

definition py_isalpha :: "ucd \<Rightarrow> cp \<Rightarrow> bool" where
  "py_isalpha U c =
     (if c < 128 then (65 \<le> c \<and> c \<le> 90) \<or> (97 \<le> c \<and> c \<le> 122) else uni_isalpha U c)"

definition py_isdecimal :: "ucd \<Rightarrow> cp \<Rightarrow> bool" where
  "py_isdecimal U c = (if c < 128 then 48 \<le> c \<and> c \<le> 57 else uni_isdecimal U c)"

definition py_isdigit :: "ucd \<Rightarrow> cp \<Rightarrow> bool" where
  "py_isdigit U c = (if c < 128 then 48 \<le> c \<and> c \<le> 57 else uni_isdigit U c)"

definition py_isnumeric :: "ucd \<Rightarrow> cp \<Rightarrow> bool" where
  "py_isnumeric U c = (if c < 128 then 48 \<le> c \<and> c \<le> 57 else uni_isnumeric U c)"

text \<open>\<^verbatim>\<open>str.isalnum\<close>, as the language reference defines it.\<close>

definition py_isalnum :: "ucd \<Rightarrow> cp \<Rightarrow> bool" where
  "py_isalnum U c = (py_isalpha U c \<or> py_isdecimal U c \<or> py_isdigit U c \<or> py_isnumeric U c)"

text \<open>\<^verbatim>\<open>str.isspace\<close>: in ASCII the characters 9 to 13, 28 to 31 and the space.\<close>

definition py_isspace :: "ucd \<Rightarrow> cp \<Rightarrow> bool" where
  "py_isspace U c =
     (if c < 128 then (9 \<le> c \<and> c \<le> 13) \<or> (28 \<le> c \<and> c \<le> 31) \<or> c = 32 else uni_isspace U c)"

text \<open>\<^verbatim>\<open>\w\<close>: an alphanumeric character or the underscore.\<close>

definition is_word :: "ucd \<Rightarrow> cp \<Rightarrow> bool" where
  "is_word U c = (py_isalnum U c \<or> c = 95)"

definition ascii_lower :: "cp \<Rightarrow> cp" where
  "ascii_lower c = (if 65 \<le> c \<and> c \<le> 90 then c + 32 else c)"

text \<open>
  A literal \<open>x\<close> of a pattern compiled with \<^verbatim>\<open>re.IGNORECASE\<close> against the character
  \<open>c\<close> of the text.
\<close>

definition caseless :: "ucd \<Rightarrow> cp \<Rightarrow> cp \<Rightarrow> bool" where
  "caseless U x c = (if c < 128 then ascii_lower c = ascii_lower x else uni_caseless U x c)"

text \<open>The value \<^verbatim>\<open>int\<close> gives a decimal digit, and a string of them.\<close>

definition decimal_value :: "ucd \<Rightarrow> cp \<Rightarrow> nat" where
  "decimal_value U c = (if c < 128 then c - 48 else uni_decimal U c)"

definition py_int :: "ucd \<Rightarrow> pystr \<Rightarrow> nat" where
  "py_int U s = foldl (\<lambda>acc c. 10 * acc + decimal_value U c) 0 s"

section \<open>Backtracking matching\<close>

text \<open>
  A cursor is a place in the text: the characters before it, the nearest first, and the
  characters from it on. A matcher tried at a cursor returns the cursors at which a match
  can end, in the order in which the backtracking engine of \<^verbatim>\<open>re\<close> would try them:
  the head of the list is the match the engine reports.
\<close>

type_synonym cursor = "pystr \<times> pystr"
type_synonym matcher = "cursor \<Rightarrow> cursor list"

fun one :: "(cp \<Rightarrow> bool) \<Rightarrow> matcher" where
  "one P (b, []) = []"
| "one P (b, c # r) = (if P c then [(c # b, r)] else [])"

definition lit :: "char \<Rightarrow> matcher" where
  "lit x = one (\<lambda>c. c = of_char x)"

definition eps :: matcher where
  "eps cur = [cur]"

definition seq :: "matcher \<Rightarrow> matcher \<Rightarrow> matcher" where
  "seq m1 m2 cur = concat (map m2 (m1 cur))"

definition alt :: "matcher \<Rightarrow> matcher \<Rightarrow> matcher" where
  "alt m1 m2 cur = m1 cur @ m2 cur"

fun seqs :: "matcher list \<Rightarrow> matcher" where
  "seqs [] = eps"
| "seqs (m # ms) = seq m (seqs ms)"

fun alts :: "matcher list \<Rightarrow> matcher" where
  "alts [] = (\<lambda>cur. [])"
| "alts (m # ms) = alt m (alts ms)"

text \<open>Greedy \<^verbatim>\<open>?\<close>: the longer match first.\<close>

definition opt :: "matcher \<Rightarrow> matcher" where
  "opt m = alt m eps"

text \<open>
  Greedy \<^verbatim>\<open>*\<close>: one more round of the body while it matches, and, when everything after
  failed, no more round. A round that consumes nothing is not repeated (no body of the
  patterns below can match the empty string).
\<close>

function star :: "matcher \<Rightarrow> matcher" where
  "star m (b, r) =
     concat (map (\<lambda>(b', r'). if length r' < length r then star m (b', r') else []) (m (b, r)))
       @ [(b, r)]"
  by pat_completeness auto
termination
  by (relation "measure (\<lambda>(m, b, r). length r)") auto

declare star.simps [simp del]

definition rplus :: "matcher \<Rightarrow> matcher" where
  "rplus m = seq m (star m)"

text \<open>\<^verbatim>\<open>m{n}\<close> and the greedy \<^verbatim>\<open>m{0,n}\<close>, \<^verbatim>\<open>m{lo,hi}\<close>, \<^verbatim>\<open>m{lo,}\<close>.\<close>

fun rtimes :: "nat \<Rightarrow> matcher \<Rightarrow> matcher" where
  "rtimes 0 m = eps"
| "rtimes (Suc n) m = seq m (rtimes n m)"

fun rupto :: "nat \<Rightarrow> matcher \<Rightarrow> matcher" where
  "rupto 0 m = eps"
| "rupto (Suc n) m = opt (seq m (rupto n m))"

definition rbetween :: "nat \<Rightarrow> nat \<Rightarrow> matcher \<Rightarrow> matcher" where
  "rbetween lo hi m = seq (rtimes lo m) (rupto (hi - lo) m)"

definition ratleast :: "nat \<Rightarrow> matcher \<Rightarrow> matcher" where
  "ratleast lo m = seq (rtimes lo m) (star m)"

text \<open>
  \<^verbatim>\<open>\b\<close>: exactly one of the two characters around the cursor is a word character, the
  outside of the text counting as none.
\<close>

fun word_before :: "ucd \<Rightarrow> cursor \<Rightarrow> bool" where
  "word_before U ([], r) = False"
| "word_before U (c # b, r) = is_word U c"

fun word_after :: "ucd \<Rightarrow> cursor \<Rightarrow> bool" where
  "word_after U (b, []) = False"
| "word_after U (b, c # r) = is_word U c"

definition at_boundary :: "ucd \<Rightarrow> cursor \<Rightarrow> bool" where
  "at_boundary U cur = (word_before U cur \<noteq> word_after U cur)"

definition wordb :: "ucd \<Rightarrow> matcher" where
  "wordb U cur = (if at_boundary U cur then [cur] else [])"

text \<open>The text between a cursor and a later one.\<close>

fun matched :: "cursor \<Rightarrow> cursor \<Rightarrow> pystr" where
  "matched (b, r) (b', r') = take (length r - length r') r"

text \<open>
  \<^verbatim>\<open>findall\<close>: the matches from left to right, none overlapping another. After a match
  the scan goes on where it ended, after a failure one character further. (After an
  empty match it moves one character on as well; the patterns below have none.)
\<close>

function findall :: "matcher \<Rightarrow> cursor \<Rightarrow> pystr list" where
  "findall m (b, r) =
     (case m (b, r) of
        [] \<Rightarrow> (case r of [] \<Rightarrow> [] | c # r1 \<Rightarrow> findall m (c # b, r1))
      | (b', r') # _ \<Rightarrow>
          matched (b, r) (b', r') #
            (if length r' < length r then findall m (b', r')
             else (case r of [] \<Rightarrow> [] | c # r1 \<Rightarrow> findall m (c # b, r1))))"
  by pat_completeness auto
termination
  by (relation "measure (\<lambda>(m, b, r). length r)") auto

declare findall.simps [simp del]

text \<open>\<^verbatim>\<open>re.search\<close>, as the truth value the source takes of it.\<close>

fun search :: "matcher \<Rightarrow> cursor \<Rightarrow> bool" where
  "search m (b, []) = (m (b, []) \<noteq> [])"
| "search m (b, c # r) = (m (b, c # r) \<noteq> [] \<or> search m (c # b, r))"

section \<open>The patterns of \<^verbatim>\<open>extract_indicators\<close>\<close>

definition chr_range :: "char \<Rightarrow> char \<Rightarrow> cp \<Rightarrow> bool" where
  "chr_range lo hi c = (of_char lo \<le> c \<and> c \<le> of_char hi)"

definition lits :: "string \<Rightarrow> matcher" where
  "lits s = seqs (map lit s)"

text \<open>\<^verbatim>\<open>\d\<close>\<close>

definition digit :: "ucd \<Rightarrow> matcher" where
  "digit U = one (py_isdecimal U)"

text \<open>\<^verbatim>\<open>\b(?:\d{1,3}\.){3}\d{1,3}\b\<close>\<close>

definition ip_re :: "ucd \<Rightarrow> matcher" where
  "ip_re U =
     seqs [wordb U,
           rtimes 3 (seqs [rbetween 1 3 (digit U), lit CHR ''.'']),
           rbetween 1 3 (digit U),
           wordb U]"

text \<open>\<^verbatim>\<open>[a-zA-Z0-9-]\<close> and \<^verbatim>\<open>[a-zA-Z]\<close>\<close>

definition label_char :: "cp \<Rightarrow> bool" where
  "label_char c =
     (chr_range CHR ''a'' CHR ''z'' c \<or> chr_range CHR ''A'' CHR ''Z'' c \<or>
      chr_range CHR ''0'' CHR ''9'' c \<or> c = of_char CHR ''-'')"

definition letter :: "cp \<Rightarrow> bool" where
  "letter c = (chr_range CHR ''a'' CHR ''z'' c \<or> chr_range CHR ''A'' CHR ''Z'' c)"

text \<open>\<^verbatim>\<open>\b(?:[a-zA-Z0-9-]+\.)+[a-zA-Z]{2,}\b\<close>\<close>

definition domain_re :: "ucd \<Rightarrow> matcher" where
  "domain_re U =
     seqs [wordb U,
           rplus (seqs [rplus (one label_char), lit CHR ''.'']),
           ratleast 2 (one letter),
           wordb U]"

text \<open>\<^verbatim>\<open>[^\s)>\"]\<close>, the last of them the double quote, character 34\<close>

definition url_char :: "ucd \<Rightarrow> cp \<Rightarrow> bool" where
  "url_char U c =
     (\<not> (py_isspace U c \<or> c = of_char CHR '')'' \<or> c = of_char CHR ''>'' \<or> c = 34))"

text \<open>\<^verbatim>\<open>\bhttps?://[^\s)>\"]+\b\<close>\<close>

definition url_re :: "ucd \<Rightarrow> matcher" where
  "url_re U =
     seqs [wordb U, lits ''http'', opt (lit CHR ''s''), lits ''://'',
           rplus (one (url_char U)), wordb U]"

text \<open>
  \<^verbatim>\<open>[^ \n\t\r]\<close> and \<^verbatim>\<open>[^\n\r\t]\<close>: the space is character 32, the newline 10, the
  tabulator 9, the carriage return 13.
\<close>

definition unix_char :: "cp \<Rightarrow> bool" where
  "unix_char c = (\<not> (c = 32 \<or> c = 10 \<or> c = 9 \<or> c = 13))"

definition win_char :: "cp \<Rightarrow> bool" where
  "win_char c = (\<not> (c = 10 \<or> c = 13 \<or> c = 9))"

text \<open>\<^verbatim>\<open>(?:(?:/[^ \n\t\r]+)+)\<close>\<close>

definition unix_path_re :: matcher where
  "unix_path_re = rplus (seqs [lit CHR ''/'', rplus (one unix_char)])"

text \<open>\<^verbatim>\<open>\b[A-Za-z]:\\[^\n\r\t]+\b\<close>, the backslash being character 92\<close>

definition win_path_re :: "ucd \<Rightarrow> matcher" where
  "win_path_re U =
     seqs [wordb U, one letter, lit CHR '':'', one (\<lambda>c. c = 92),
           rplus (one win_char), wordb U]"

text \<open>
  \<^verbatim>\<open>\b(1\d{2}|2\d{2}|3\d{2}|4\d{2}|5\d{2})\b\<close>. The pattern has one group, so
  \<^verbatim>\<open>findall\<close> returns the text of the group; the group spans the whole match, \<^verbatim>\<open>\b\<close>
  consuming nothing.
\<close>

definition status_re :: "ucd \<Rightarrow> matcher" where
  "status_re U =
     seqs [wordb U,
           alts [seqs [lit CHR ''1'', rtimes 2 (digit U)],
                 seqs [lit CHR ''2'', rtimes 2 (digit U)],
                 seqs [lit CHR ''3'', rtimes 2 (digit U)],
                 seqs [lit CHR ''4'', rtimes 2 (digit U)],
                 seqs [lit CHR ''5'', rtimes 2 (digit U)]],
           wordb U]"

text \<open>\<^verbatim>\<open>rf"\b{kw}\b"\<close> with \<^verbatim>\<open>flags=re.IGNORECASE\<close>\<close>

definition kw_re :: "ucd \<Rightarrow> pystr \<Rightarrow> matcher" where
  "kw_re U kw = seqs [wordb U, seqs (map (\<lambda>x. one (caseless U x)) kw), wordb U]"

definition keyword_list :: "pystr list" where
  "keyword_list =
     [py ''error'', py ''failed'', py ''denied'', py ''timeout'', py ''exception'',
      py ''forbidden'', py ''unauthorized'']"

section \<open>\<^verbatim>\<open>extract_indicators\<close>\<close>

text \<open>
  The dictionary the function returns, a field for each of its keys; \<^verbatim>\<open>counts\<close> is
  the inner dictionary.
\<close>

record report =
  ok :: bool
  counts :: "string \<rightharpoonup> int"
  ips :: "pystr list"
  domains :: "pystr list"
  urls :: "pystr list"
  file_paths :: "pystr list"
  status_codes :: "pystr list"
  "keywords" :: "pystr list"

text \<open>\<^verbatim>\<open>sorted(set(xs))\<close>\<close>

definition sorted_set :: "pystr list \<Rightarrow> pystr list" where
  "sorted_set xs = sort (remdups xs)"

text \<open>\<^verbatim>\<open>p.findall(text)\<close>: the scan starts before the first character.\<close>

definition re_findall :: "matcher \<Rightarrow> pystr \<Rightarrow> pystr list" where
  "re_findall m text = findall m ([], text)"

definition re_search :: "matcher \<Rightarrow> pystr \<Rightarrow> bool" where
  "re_search m text = search m ([], text)"

text \<open>
  The argument is \<open>None\<close> for Python's \<^verbatim>\<open>None\<close>; \<^verbatim>\<open>log_text or ""\<close> turns it, and
  the empty string, into the empty string.
\<close>

definition or_empty :: "pystr option \<Rightarrow> pystr" where
  "or_empty log_text = (case log_text of None \<Rightarrow> [] | Some t \<Rightarrow> t)"

definition extract_indicators :: "ucd \<Rightarrow> pystr option \<Rightarrow> report" where
  "extract_indicators U log_text =
     (let text = or_empty log_text;
          ips = sorted_set (re_findall (ip_re U) text);
          domains_all = re_findall (domain_re U) text;
          domains = sorted_set (filter (\<lambda>d. d \<notin> set ips) domains_all);
          urls = sorted_set (re_findall (url_re U) text);
          file_paths =
            sorted_set (re_findall unix_path_re text @ re_findall (win_path_re U) text);
          statuses = sorted_set (re_findall (status_re U) text);
          keywords = filter (\<lambda>kw. re_search (kw_re U kw) text) keyword_list
      in \<lparr>ok = True,
          counts = [''ips'' \<mapsto> int (length ips),
                    ''domains'' \<mapsto> int (length domains),
                    ''urls'' \<mapsto> int (length urls),
                    ''file_paths'' \<mapsto> int (length file_paths),
                    ''status_codes'' \<mapsto> int (length statuses)],
          ips = ips,
          domains = domains,
          urls = urls,
          file_paths = file_paths,
          status_codes = statuses,
          keywords = keywords\<rparr>)"

text \<open>
  A fragment of the Unicode character database for the examples: beyond ASCII it knows
  the Arabic-Indic digits U+0660 to U+0669 (decimal digits, of the values 0 to 9) and the
  no-break space U+00A0.
\<close>

definition ucd_fragment :: ucd where
  "ucd_fragment =
     \<lparr>uni_isalpha = (\<lambda>c. False),
      uni_isdecimal = (\<lambda>c. 1632 \<le> c \<and> c \<le> 1641),
      uni_isdigit = (\<lambda>c. 1632 \<le> c \<and> c \<le> 1641),
      uni_isnumeric = (\<lambda>c. 1632 \<le> c \<and> c \<le> 1641),
      uni_isspace = (\<lambda>c. c = 160),
      uni_decimal = (\<lambda>c. c - 1632),
      uni_caseless = (\<lambda>x c. False)\<rparr>"

section \<open>Notions used in the proofs and statements\<close>

text \<open>
  Every cursor a matcher returns lies further on in the same text, and the stretch \<open>k\<close>
  between the two has the property \<open>L\<close>.
\<close>

definition yields :: "(pystr \<Rightarrow> bool) \<Rightarrow> matcher \<Rightarrow> bool" where
  "yields L m =
     (\<forall>b r b' r'. (b', r') \<in> set (m (b, r)) \<longrightarrow> (\<exists>k. r = k @ r' \<and> b' = rev k @ b \<and> L k))"

text \<open>The matcher moves the cursor forward in the text, or leaves it.\<close>

definition advances :: "matcher \<Rightarrow> bool" where
  "advances m = yields (\<lambda>k. True) m"

text \<open>
  What the pattern \<^verbatim>\<open>\bX\b\<close> tests of a match \<open>t\<close> of \<open>X\<close> between \<open>pre\<close> and
  \<open>post\<close>: \<^verbatim>\<open>\b\<close> holds at the cursor before it and at the cursor after it.
\<close>

definition regex_bounded :: "ucd \<Rightarrow> pystr \<Rightarrow> pystr \<Rightarrow> pystr \<Rightarrow> bool" where
  "regex_bounded U pre t post =
     (at_boundary U (rev pre, t @ post) \<and> at_boundary U (rev t @ rev pre, post))"

text \<open>The strings with the property \<open>T\<close> that occur so in a text.\<close>

definition regex_bounded_tokens :: "ucd \<Rightarrow> (pystr \<Rightarrow> bool) \<Rightarrow> pystr \<Rightarrow> pystr set" where
  "regex_bounded_tokens U T text =
     {t. T t \<and> (\<exists>pre post. text = pre @ t @ post \<and> regex_bounded U pre t post)}"

text \<open>
  A token of three characters, the first a digit from \<^verbatim>\<open>1\<close> to \<^verbatim>\<open>5\<close>, the other two
  decimal digits as \<^verbatim>\<open>\d\<close> knows them.
\<close>

definition status_token :: "ucd \<Rightarrow> pystr \<Rightarrow> bool" where
  "status_token U t =
     (\<exists>c1 c2 c3. t = [c1, c2, c3] \<and> chr_range CHR ''1'' CHR ''5'' c1 \<and>
        py_isdecimal U c2 \<and> py_isdecimal U c3)"

text \<open>
  What \<^verbatim>\<open>re.search\<close> tests of the pattern of a keyword: a stretch of the text matches
  it character by character under \<^verbatim>\<open>re.IGNORECASE\<close>, with \<^verbatim>\<open>\b\<close> on both sides.
\<close>

definition regex_word_match :: "ucd \<Rightarrow> pystr \<Rightarrow> pystr \<Rightarrow> bool" where
  "regex_word_match U kw text =
     (\<exists>pre mid post. text = pre @ mid @ post \<and> list_all2 (caseless U) kw mid \<and>
        regex_bounded U pre mid post)"

text \<open>A string of the digits \<^verbatim>\<open>0\<close> to \<^verbatim>\<open>9\<close> only.\<close>

definition ascii_digits :: "pystr \<Rightarrow> bool" where
  "ascii_digits s = list_all (chr_range CHR ''0'' CHR ''9'') s"

text \<open>The match the engine reports at a cursor, if there is one.\<close>

definition first :: "matcher \<Rightarrow> cursor \<Rightarrow> cursor option" where
  "first m cur = (case m cur of [] \<Rightarrow> None | x # _ \<Rightarrow> Some x)"

text \<open>
  The two paths of the mixed-styles example, \<^verbatim>\<open>/var/log/app.log\<close> and
  \<^verbatim>\<open>C:\Users\test\file.txt\<close> (92 is the backslash).
\<close>

definition app_log :: pystr where
  "app_log = py ''/var/log/app.log''"

definition file_txt :: pystr where
  "file_txt = py ''C:'' @ [92] @ py ''Users'' @ [92] @ py ''test'' @ [92] @ py ''file.txt''"

text \<open>
  A word character, for \<^verbatim>\<open>\b\<close>: an alphanumeric character or the underscore, which is
  character 95. A text ends, or starts, with one; the two texts around a place make a
  word boundary when exactly one of these holds.
\<close>

definition alnum_or_underscore :: "ucd \<Rightarrow> cp \<Rightarrow> bool" where
  "alnum_or_underscore U c = (py_isalnum U c \<or> c = 95)"

definition ends_word :: "ucd \<Rightarrow> pystr \<Rightarrow> bool" where
  "ends_word U s = (s \<noteq> [] \<and> alnum_or_underscore U (last s))"

definition starts_word :: "ucd \<Rightarrow> pystr \<Rightarrow> bool" where
  "starts_word U s = (s \<noteq> [] \<and> alnum_or_underscore U (hd s))"

definition word_boundary :: "ucd \<Rightarrow> pystr \<Rightarrow> pystr \<Rightarrow> bool" where
  "word_boundary U before after = (ends_word U before \<noteq> starts_word U after)"

text \<open>
  A keyword occurs in the text as a word: a stretch of the text matches it character by
  character, whatever the case, with a word boundary at its start and one at its end.
\<close>

definition occurs_as_word :: "ucd \<Rightarrow> pystr \<Rightarrow> pystr \<Rightarrow> bool" where
  "occurs_as_word U kw text =
     (\<exists>pre mid post. text = pre @ mid @ post \<and> list_all2 (caseless U) kw mid \<and>
        word_boundary U pre (mid @ post) \<and> word_boundary U (pre @ mid) post)"

text \<open>
  The notions of the specification's glossary. "Word-bounded: a match that does not begin
  or end in the middle of an alphanumeric run." "Whole-word keyword match:
  case-insensitive match of a literal where both edges are non-alphanumeric boundaries."
  A status code is, in its words, a "standalone 3-digit token whose first digit is 1-5
  (i.e., 100-599), word-bounded".
\<close>

definition ends_alnum :: "ucd \<Rightarrow> pystr \<Rightarrow> bool" where
  "ends_alnum U s = (s \<noteq> [] \<and> py_isalnum U (last s))"

definition starts_alnum :: "ucd \<Rightarrow> pystr \<Rightarrow> bool" where
  "starts_alnum U s = (s \<noteq> [] \<and> py_isalnum U (hd s))"

definition spec_word_bounded :: "ucd \<Rightarrow> pystr \<Rightarrow> pystr \<Rightarrow> pystr \<Rightarrow> bool" where
  "spec_word_bounded U pre t post =
     (\<not> (ends_alnum U pre \<and> starts_alnum U t) \<and> \<not> (ends_alnum U t \<and> starts_alnum U post))"

definition spec_status_tokens :: "ucd \<Rightarrow> pystr \<Rightarrow> pystr set" where
  "spec_status_tokens U text =
     {t. \<exists>pre post. text = pre @ t @ post \<and> length t = 3 \<and> ascii_digits t \<and>
           chr_range CHR ''1'' CHR ''5'' (hd t) \<and> spec_word_bounded U pre t post}"

definition spec_whole_word :: "ucd \<Rightarrow> pystr \<Rightarrow> pystr \<Rightarrow> bool" where
  "spec_whole_word U kw text =
     (\<exists>pre mid post. text = pre @ mid @ post \<and> list_all2 (caseless U) kw mid \<and>
        \<not> ends_alnum U pre \<and> \<not> starts_alnum U post)"

text \<open>
  The one thing in \<^verbatim>\<open>extract_indicators\<close> that can differ between two calls on the same
  text is the order in which a \<^verbatim>\<open>set\<close> is iterated when \<^verbatim>\<open>sorted\<close> reads it: the
  function reads no variable but its argument and writes none. The orders in which the
  set of the elements of \<open>xs\<close> can be iterated are the lists of these elements without
  repetition.
\<close>

definition iteration_orders :: "pystr list \<Rightarrow> pystr list set" where
  "iteration_orders xs = {ys. distinct ys \<and> set ys = set xs}"

text \<open>
  The reports a call can return: the body of \<^verbatim>\<open>extract_indicators\<close> again, with
  \<^verbatim>\<open>sorted\<close> applied to any iteration order of each of the five sets.
\<close>

definition possible_reports :: "ucd \<Rightarrow> pystr option \<Rightarrow> report set" where
  "possible_reports U log_text =
     {r. \<exists>o_ips o_domains o_urls o_paths o_statuses.
           o_ips \<in> iteration_orders (re_findall (ip_re U) (or_empty log_text)) \<and>
           o_domains \<in> iteration_orders
             (filter (\<lambda>d. d \<notin> set (sort o_ips)) (re_findall (domain_re U) (or_empty log_text))) \<and>
           o_urls \<in> iteration_orders (re_findall (url_re U) (or_empty log_text)) \<and>
           o_paths \<in> iteration_orders
             (re_findall unix_path_re (or_empty log_text) @
              re_findall (win_path_re U) (or_empty log_text)) \<and>
           o_statuses \<in> iteration_orders (re_findall (status_re U) (or_empty log_text)) \<and>
           r = \<lparr>ok = True,
                counts = [''ips'' \<mapsto> int (length (sort o_ips)),
                          ''domains'' \<mapsto> int (length (sort o_domains)),
                          ''urls'' \<mapsto> int (length (sort o_urls)),
                          ''file_paths'' \<mapsto> int (length (sort o_paths)),
                          ''status_codes'' \<mapsto> int (length (sort o_statuses))],
                ips = sort o_ips,
                domains = sort o_domains,
                urls = sort o_urls,
                file_paths = sort o_paths,
                status_codes = sort o_statuses,
                keywords =
                  filter (\<lambda>kw. re_search (kw_re U kw) (or_empty log_text)) keyword_list\<rparr>}"

text \<open>
  The Unix-style path stands in the text with a space, tabulator, newline or carriage
  return (or nothing) after it, and with no slash between it and the last such character
  before it (or the start of the text).
\<close>

definition app_log_delimited :: "pystr \<Rightarrow> bool" where
  "app_log_delimited text =
     (\<exists>A L Z. text = A @ L @ app_log @ Z \<and>
        (A = [] \<or> \<not> unix_char (last A)) \<and> 47 \<notin> set L \<and>
        (Z = [] \<or> \<not> unix_char (hd Z)))"

text \<open>
  The Windows-style path stands in the text with no word character after it on its line
  (\<open>R\<close>, up to the next tabulator, newline or carriage return), with no word character
  right before it, and with no drive-letter start before it on its line (\<open>L\<close>): a letter
  followed by a colon and a backslash is there preceded by a word character, so that no
  match of the pattern begins at it.
\<close>

definition file_txt_ends_line :: "ucd \<Rightarrow> pystr \<Rightarrow> bool" where
  "file_txt_ends_line U text =
     (\<exists>A L R Z. text = A @ L @ file_txt @ R @ Z \<and>
        (A = [] \<or> \<not> win_char (last A)) \<and>
        (\<forall>La x Lb. L = La @ x # 58 # 92 # Lb \<and> letter x \<longrightarrow> ends_word U La) \<and>
        \<not> ends_word U L \<and>
        list_all (\<lambda>c. win_char c \<and> \<not> alnum_or_underscore U c) R \<and>
        (Z = [] \<or> \<not> win_char (hd Z)))"

section \<open>The fields of the report\<close>

lemma ok_extract: "ok (extract_indicators U lt) = True"
  by (simp add: extract_indicators_def Let_def)

lemma ips_extract: "ips (extract_indicators U lt) = sorted_set (re_findall (ip_re U) (or_empty lt))"
  by (simp add: extract_indicators_def Let_def)

lemma domains_extract:
  "domains (extract_indicators U lt) =
     sorted_set (filter (\<lambda>d. d \<notin> set (ips (extract_indicators U lt)))
       (re_findall (domain_re U) (or_empty lt)))"
  by (simp add: extract_indicators_def Let_def)

lemma urls_extract: "urls (extract_indicators U lt) = sorted_set (re_findall (url_re U) (or_empty lt))"
  by (simp add: extract_indicators_def Let_def)

lemma file_paths_extract:
  "file_paths (extract_indicators U lt) =
     sorted_set (re_findall unix_path_re (or_empty lt) @ re_findall (win_path_re U) (or_empty lt))"
  by (simp add: extract_indicators_def Let_def)

lemma status_codes_extract:
  "status_codes (extract_indicators U lt) = sorted_set (re_findall (status_re U) (or_empty lt))"
  by (simp add: extract_indicators_def Let_def)

lemma keywords_extract:
  "keywords (extract_indicators U lt) =
     filter (\<lambda>kw. re_search (kw_re U kw) (or_empty lt)) keyword_list"
  by (simp add: extract_indicators_def Let_def)

lemma counts_extract:
  "counts (extract_indicators U lt) =
     [''ips'' \<mapsto> int (length (ips (extract_indicators U lt))),
      ''domains'' \<mapsto> int (length (domains (extract_indicators U lt))),
      ''urls'' \<mapsto> int (length (urls (extract_indicators U lt))),
      ''file_paths'' \<mapsto> int (length (file_paths (extract_indicators U lt))),
      ''status_codes'' \<mapsto> int (length (status_codes (extract_indicators U lt)))]"
  by (simp add: extract_indicators_def Let_def)

lemma sorted_sorted_set: "sorted (sorted_set xs)"
  by (simp add: sorted_set_def)

lemma distinct_sorted_set: "distinct (sorted_set xs)"
  by (simp add: sorted_set_def)

lemma set_sorted_set: "set (sorted_set xs) = set xs"
  by (simp add: sorted_set_def)

lemma sorted_set_Nil: "sorted_set [] = []"
  by (simp add: sorted_set_def)

section \<open>What a matcher consumes\<close>

lemma yieldsI:
  "(\<And>b r b' r'. (b', r') \<in> set (m (b, r)) \<Longrightarrow> \<exists>k. r = k @ r' \<and> b' = rev k @ b \<and> L k)
   \<Longrightarrow> yields L m"
  unfolding yields_def by blast

lemma yieldsD:
  "yields L m \<Longrightarrow> (b', r') \<in> set (m (b, r)) \<Longrightarrow> \<exists>k. r = k @ r' \<and> b' = rev k @ b \<and> L k"
  unfolding yields_def by blast

lemma yields_mono: "yields L m \<Longrightarrow> (\<And>k. L k \<Longrightarrow> L' k) \<Longrightarrow> yields L' m"
  unfolding yields_def by blast

lemma yields_one: "(\<And>c. P c \<Longrightarrow> L [c]) \<Longrightarrow> yields L (one P)"
proof (rule yieldsI)
  fix b r b' r'
  assume L: "\<And>c. P c \<Longrightarrow> L [c]" and mem: "(b', r') \<in> set (one P (b, r))"
  show "\<exists>k. r = k @ r' \<and> b' = rev k @ b \<and> L k"
  proof (cases r)
    case Nil
    with mem show ?thesis by simp
  next
    case (Cons c r1)
    with mem have "P c" "b' = c # b" "r' = r1" by (auto split: if_splits)
    with Cons L show ?thesis by (intro exI [of _ "[c]"]) simp
  qed
qed

lemma yields_lit: "L [of_char x] \<Longrightarrow> yields L (lit x)"
  unfolding lit_def by (rule yields_one) simp

lemma yields_eps: "L [] \<Longrightarrow> yields L eps"
  by (rule yieldsI) (simp add: eps_def)

lemma yields_wordb: "L [] \<Longrightarrow> yields L (wordb U)"
  by (rule yieldsI) (simp add: wordb_def split: if_splits)

lemma yields_seq:
  assumes "yields L1 m1" "yields L2 m2" "\<And>k1 k2. L1 k1 \<Longrightarrow> L2 k2 \<Longrightarrow> L (k1 @ k2)"
  shows "yields L (seq m1 m2)"
proof (rule yieldsI)
  fix b r b' r'
  assume "(b', r') \<in> set (seq m1 m2 (b, r))"
  then obtain b1 r1 where 1: "(b1, r1) \<in> set (m1 (b, r))" and 2: "(b', r') \<in> set (m2 (b1, r1))"
    by (auto simp: seq_def)
  from yieldsD [OF assms(1) 1] obtain k1 where k1: "r = k1 @ r1" "b1 = rev k1 @ b" "L1 k1"
    by blast
  from yieldsD [OF assms(2) 2] obtain k2 where k2: "r1 = k2 @ r'" "b' = rev k2 @ b1" "L2 k2"
    by blast
  from k1 k2 assms(3) show "\<exists>k. r = k @ r' \<and> b' = rev k @ b \<and> L k"
    by (intro exI [of _ "k1 @ k2"]) simp
qed

lemma yields_alt: "yields L m1 \<Longrightarrow> yields L m2 \<Longrightarrow> yields L (alt m1 m2)"
  unfolding yields_def alt_def by auto

lemma yields_opt: "yields L m \<Longrightarrow> L [] \<Longrightarrow> yields L (opt m)"
  unfolding opt_def by (intro yields_alt yields_eps)

lemma yields_star:
  assumes "yields L1 m" "L []" "\<And>k1 k2. L1 k1 \<Longrightarrow> L k2 \<Longrightarrow> L (k1 @ k2)"
  shows "yields L (star m)"
proof (rule yieldsI)
  fix b r b' r'
  assume "(b', r') \<in> set (star m (b, r))"
  then show "\<exists>k. r = k @ r' \<and> b' = rev k @ b \<and> L k"
  proof (induction "length r" arbitrary: b r rule: less_induct)
    case less
    from less.prems consider "(b', r') = (b, r)"
      | b1 r1 where "(b1, r1) \<in> set (m (b, r))" "length r1 < length r"
          "(b', r') \<in> set (star m (b1, r1))"
      by (subst (asm) star.simps) (auto split: if_splits)
    then show ?case
    proof cases
      case 1
      with assms(2) show ?thesis by simp
    next
      case 2
      from yieldsD [OF assms(1) 2(1)] obtain k1 where k1: "r = k1 @ r1" "b1 = rev k1 @ b" "L1 k1"
        by blast
      from less.hyps [OF 2(2) 2(3)] obtain k2 where k2: "r1 = k2 @ r'" "b' = rev k2 @ b1" "L k2"
        by blast
      from k1 k2 assms(3) show ?thesis
        by (intro exI [of _ "k1 @ k2"]) simp
    qed
  qed
qed

lemma yields_rplus:
  assumes "yields L1 m" "yields L2 (star m)" "\<And>k1 k2. L1 k1 \<Longrightarrow> L2 k2 \<Longrightarrow> L (k1 @ k2)"
  shows "yields L (rplus m)"
  unfolding rplus_def using assms by (rule yields_seq)

lemma yields_rtimes:
  assumes "yields L1 m" "L []" "\<And>k1 k2. L1 k1 \<Longrightarrow> L k2 \<Longrightarrow> L (k1 @ k2)"
  shows "yields L (rtimes n m)"
proof (induction n)
  case 0
  from assms(2) show ?case by (simp add: yields_eps)
next
  case (Suc n)
  show ?case by (simp, rule yields_seq [OF assms(1) Suc]) (rule assms(3))
qed

lemma yields_rupto:
  assumes "yields L1 m" "L []" "\<And>k1 k2. L1 k1 \<Longrightarrow> L k2 \<Longrightarrow> L (k1 @ k2)"
  shows "yields L (rupto n m)"
proof (induction n)
  case 0
  from assms(2) show ?case by (simp add: yields_eps)
next
  case (Suc n)
  have "yields L (seq m (rupto n m))"
    by (rule yields_seq [OF assms(1) Suc]) (rule assms(3))
  with assms(2) show ?case by (simp add: yields_opt)
qed

text \<open>Every matcher built from these consumes a stretch of the text.\<close>

lemma yields_any_rplus_one: "yields (\<lambda>k. k \<noteq> [] \<and> list_all P k) (rplus (one P))"
proof (rule yields_rplus)
  show "yields (\<lambda>k. \<exists>c. k = [c] \<and> P c) (one P)" by (rule yields_one) simp
  show "yields (list_all P) (star (one P))"
    by (rule yields_star [where ?L1.0 = "\<lambda>k. \<exists>c. k = [c] \<and> P c"]) (auto intro: yields_one)
qed auto

lemma findall_sound:
  assumes "yields L m"
  shows "x \<in> set (findall m (b, r)) \<Longrightarrow>
         \<exists>pre post rest. r = pre @ x @ post \<and>
           m (rev pre @ b, x @ post) = (rev x @ rev pre @ b, post) # rest \<and> L x"
proof (induction "length r" arbitrary: b r rule: less_induct)
  case less
  have step: "\<exists>pre post rest. r = pre @ x @ post \<and>
           m (rev pre @ b, x @ post) = (rev x @ rev pre @ b, post) # rest \<and> L x"
    if "r = k @ r1" "k \<noteq> []" "x \<in> set (findall m (rev k @ b, r1))" for k r1
  proof -
    from that have "length r1 < length r" by simp
    from less.hyps [OF this that(3)] obtain pre post rest where
      "r1 = pre @ x @ post" "m (rev pre @ rev k @ b, x @ post) = (rev x @ rev pre @ rev k @ b, post) # rest" "L x"
      by blast
    with that(1) show ?thesis
      by (intro exI [of _ "k @ pre"] exI [of _ post] exI [of _ rest]) simp
  qed
  show ?case
  proof (cases "m (b, r)")
    case Nil
    with less.prems obtain c r1 where r: "r = c # r1" and x: "x \<in> set (findall m (c # b, r1))"
      by (subst (asm) findall.simps) (auto split: list.splits)
    from step [of "[c]" r1] r x show ?thesis by simp
  next
    case (Cons cur' rest)
    obtain b' r' where cur': "cur' = (b', r')" by (cases cur')
    with Cons have "(b', r') \<in> set (m (b, r))" by simp
    from yieldsD [OF assms this] obtain k where k: "r = k @ r'" "b' = rev k @ b" "L k" by blast
    then have mt: "matched (b, r) (b', r') = k" by simp
    from less.prems Cons cur' mt consider "x = k"
      | "length r' < length r" "x \<in> set (findall m (b', r'))"
      | c r1 where "\<not> length r' < length r" "r = c # r1" "x \<in> set (findall m (c # b, r1))"
      by (subst (asm) findall.simps) (auto split: list.splits if_splits)
    then show ?thesis
    proof cases
      case 1
      with k Cons cur' show ?thesis
        by (intro exI [of _ "[]"] exI [of _ r'] exI [of _ rest]) simp
    next
      case 2
      with k have "k \<noteq> []" by auto
      from step [OF k(1) this] 2 k show ?thesis by simp
    next
      case 3
      from step [of "[c]" r1] 3 show ?thesis by simp
    qed
  qed
qed

section \<open>Counts\<close>

text \<open>
  C1, as the code has it. The \<^verbatim>\<open>counts\<close> dictionary has exactly five entries, for
  \<^verbatim>\<open>ips\<close>, \<^verbatim>\<open>domains\<close>, \<^verbatim>\<open>urls\<close>, \<^verbatim>\<open>file_paths\<close> and \<^verbatim>\<open>status_codes\<close>, and each is
  the length of the list of that name in the report, for every input. There is no entry
  for \<^verbatim>\<open>keywords\<close>.
\<close>

theorem counts_match_lists:
  "dom (counts (extract_indicators U lt)) =
     {''ips'', ''domains'', ''urls'', ''file_paths'', ''status_codes''} \<and>
   counts (extract_indicators U lt) ''ips'' = Some (int (length (ips (extract_indicators U lt)))) \<and>
   counts (extract_indicators U lt) ''domains'' =
     Some (int (length (domains (extract_indicators U lt)))) \<and>
   counts (extract_indicators U lt) ''urls'' = Some (int (length (urls (extract_indicators U lt)))) \<and>
   counts (extract_indicators U lt) ''file_paths'' =
     Some (int (length (file_paths (extract_indicators U lt)))) \<and>
   counts (extract_indicators U lt) ''status_codes'' =
     Some (int (length (status_codes (extract_indicators U lt))))"
  unfolding counts_extract by auto

text \<open>
  C1 as stated asks for an entry of \<^verbatim>\<open>counts\<close> for each of the six kinds. On the text
  \<^verbatim>\<open>ERROR: Access Denied\<close> the report has keywords, and \<^verbatim>\<open>counts\<close> has no entry for
  them.
\<close>

theorem counts_no_keywords_entry:
  "counts (extract_indicators ucd_fragment (Some (py ''ERROR: Access Denied''))) ''keywords'' = None"
  unfolding counts_extract by simp

section \<open>Absent and empty input\<close>

lemma findall_Nil: "m (b, []) = [] \<Longrightarrow> findall m (b, []) = []"
  by (simp add: findall.simps)

lemma seq_Nil: "m1 cur = [] \<Longrightarrow> seq m1 m2 cur = []"
  by (simp add: seq_def)

lemma seqs_Nil: "m cur = [] \<Longrightarrow> seqs (m # ms) cur = []"
  by (simp add: seq_def)

lemma wordb_empty: "wordb U ([], []) = []"
  by (simp add: wordb_def at_boundary_def)

lemma findall_empty_text:
  "re_findall (ip_re U) [] = []" "re_findall (domain_re U) [] = []"
  "re_findall (url_re U) [] = []" "re_findall unix_path_re [] = []"
  "re_findall (win_path_re U) [] = []" "re_findall (status_re U) [] = []"
  by (simp_all add: re_findall_def findall_Nil ip_re_def domain_re_def url_re_def
      unix_path_re_def win_path_re_def status_re_def seq_Nil wordb_empty rplus_def lit_def)

lemma search_empty_text: "re_search (kw_re U kw) [] = False"
  by (simp add: re_search_def kw_re_def seq_Nil wordb_empty)

text \<open>
  C2. The function returns a report for every argument (it is total: the two loops of
  the matching, \<open>star\<close> and \<open>findall\<close>, terminate), with \<^verbatim>\<open>ok\<close> true; for \<^verbatim>\<open>None\<close> and
  for the empty string every count is zero and every list is empty.
\<close>

theorem empty_input_empty_report:
  "ok (extract_indicators U lt) \<and>
   extract_indicators U None =
     \<lparr>ok = True,
      counts = [''ips'' \<mapsto> 0, ''domains'' \<mapsto> 0, ''urls'' \<mapsto> 0, ''file_paths'' \<mapsto> 0,
                ''status_codes'' \<mapsto> 0],
      ips = [], domains = [], urls = [], file_paths = [], status_codes = [],
      keywords = []\<rparr> \<and>
   extract_indicators U (Some []) = extract_indicators U None"
  by (simp add: extract_indicators_def Let_def or_empty_def findall_empty_text
      search_empty_text sorted_set_Nil)

section \<open>Order and duplicates\<close>

text \<open>
  C6. For every input the lists \<^verbatim>\<open>ips\<close>, \<^verbatim>\<open>domains\<close>, \<^verbatim>\<open>urls\<close>, \<^verbatim>\<open>file_paths\<close> and
  \<^verbatim>\<open>status_codes\<close> of the report are sorted ascending in the lexicographic order of
  strings and have no duplicates; \<^verbatim>\<open>keywords\<close> is a subsequence of the list of the seven
  keywords, in that list's order.
\<close>

theorem lists_sorted_distinct:
  "sorted (ips (extract_indicators U lt)) \<and> distinct (ips (extract_indicators U lt)) \<and>
   sorted (domains (extract_indicators U lt)) \<and> distinct (domains (extract_indicators U lt)) \<and>
   sorted (urls (extract_indicators U lt)) \<and> distinct (urls (extract_indicators U lt)) \<and>
   sorted (file_paths (extract_indicators U lt)) \<and>
   distinct (file_paths (extract_indicators U lt)) \<and>
   sorted (status_codes (extract_indicators U lt)) \<and>
   distinct (status_codes (extract_indicators U lt)) \<and>
   subseq (keywords (extract_indicators U lt)) keyword_list"
  by (simp add: ips_extract domains_extract urls_extract file_paths_extract
      status_codes_extract keywords_extract sorted_sorted_set distinct_sorted_set)

lemma advances_yields: "yields L m \<Longrightarrow> advances m"
  unfolding advances_def by (rule yields_mono) simp_all

lemma advances_one: "advances (one P)"
  unfolding advances_def by (rule yields_one) simp_all

lemma advances_lit: "advances (lit x)"
  unfolding advances_def by (rule yields_lit) simp_all

lemma advances_eps: "advances eps"
  unfolding advances_def by (rule yields_eps) simp_all

lemma advances_wordb: "advances (wordb U)"
  unfolding advances_def by (rule yields_wordb) simp_all

lemma advances_seq: "advances m1 \<Longrightarrow> advances m2 \<Longrightarrow> advances (seq m1 m2)"
  unfolding advances_def by (rule yields_seq)

lemma advances_alt: "advances m1 \<Longrightarrow> advances m2 \<Longrightarrow> advances (alt m1 m2)"
  unfolding advances_def by (rule yields_alt)

lemma advances_opt: "advances m \<Longrightarrow> advances (opt m)"
  unfolding advances_def by (rule yields_opt) simp_all

lemma advances_star: "advances m \<Longrightarrow> advances (star m)"
  unfolding advances_def by (rule yields_star) simp_all

lemma advances_rplus: "advances m \<Longrightarrow> advances (rplus m)"
  unfolding rplus_def by (intro advances_seq advances_star)

lemma advances_rtimes: "advances m \<Longrightarrow> advances (rtimes n m)"
  unfolding advances_def by (rule yields_rtimes) simp_all

lemma advances_rupto: "advances m \<Longrightarrow> advances (rupto n m)"
  unfolding advances_def by (rule yields_rupto) simp_all

lemma advances_rbetween: "advances m \<Longrightarrow> advances (rbetween lo hi m)"
  unfolding rbetween_def by (intro advances_seq advances_rtimes advances_rupto)

lemma advances_ratleast: "advances m \<Longrightarrow> advances (ratleast n m)"
  unfolding ratleast_def by (intro advances_seq advances_rtimes advances_star)

lemma advances_seqs: "list_all advances ms \<Longrightarrow> advances (seqs ms)"
  by (induction ms) (simp_all add: advances_eps advances_seq)

lemma advances_digit: "advances (digit U)"
  unfolding digit_def by (rule advances_one)

lemmas advances_intros =
  advances_one advances_lit advances_eps advances_wordb advances_seq advances_alt advances_opt
  advances_star advances_rplus advances_rtimes advances_rupto advances_rbetween
  advances_ratleast

section \<open>Domains and IP addresses\<close>

lemma last_list_all: "k \<noteq> [] \<Longrightarrow> list_all P k \<Longrightarrow> P (last k)"
  by (simp add: list_all_iff)

lemma yields_single: "yields (\<lambda>k. \<exists>c. k = [c] \<and> P c) (one P)"
  by (rule yields_one) simp

lemma yields_star_one: "yields (list_all P) (star (one P))"
  by (rule yields_star [OF yields_single]) auto

lemma yields_rtimes_one: "yields (list_all P) (rtimes n (one P))"
  by (rule yields_rtimes [OF yields_single]) auto

lemma yields_rupto_one: "yields (list_all P) (rupto n (one P))"
  by (rule yields_rupto [OF yields_single]) auto

lemma yields_rtimes_Suc_one: "yields (\<lambda>k. k \<noteq> [] \<and> list_all P k) (rtimes (Suc n) (one P))"
  by (simp, rule yields_seq [OF yields_single yields_rtimes_one]) auto

lemma yields_ratleast_one:
  "0 < n \<Longrightarrow> yields (\<lambda>k. k \<noteq> [] \<and> list_all P k) (ratleast n (one P))"
  unfolding ratleast_def
  by (cases n, simp, simp only:, rule yields_seq [OF yields_rtimes_Suc_one yields_star_one]) auto

lemma yields_rbetween_one:
  "0 < lo \<Longrightarrow> yields (\<lambda>k. k \<noteq> [] \<and> list_all P k) (rbetween lo hi (one P))"
  unfolding rbetween_def
  by (cases lo, simp, simp only:, rule yields_seq [OF yields_rtimes_Suc_one yields_rupto_one]) auto

lemma yields_then_wordb: "yields L m \<Longrightarrow> yields L (seqs [m, wordb U])"
  by (simp, rule yields_seq [where ?L2.0 = "\<lambda>k. k = []"], assumption)
     (auto intro!: yields_seq [where ?L1.0 = "\<lambda>k. k = []" and ?L2.0 = "\<lambda>k. k = []"]
        yields_wordb yields_eps)

lemma yields_after: "advances m1 \<Longrightarrow> yields (\<lambda>k. k \<noteq> [] \<and> P (last k)) m2 \<Longrightarrow>
  yields (\<lambda>k. k \<noteq> [] \<and> P (last k)) (seq m1 m2)"
  unfolding advances_def by (erule yields_seq, assumption) simp

lemma yields_last: "yields (\<lambda>k. k \<noteq> [] \<and> list_all P k) m \<Longrightarrow> yields (\<lambda>k. k \<noteq> [] \<and> P (last k)) m"
  by (erule yields_mono) (simp add: last_list_all)

lemma domain_ends_with_letter: "yields (\<lambda>k. k \<noteq> [] \<and> letter (last k)) (domain_re U)"
proof -
  have "yields (\<lambda>k. k \<noteq> [] \<and> letter (last k)) (seqs [ratleast 2 (one letter), wordb U])"
    by (intro yields_last yields_then_wordb yields_ratleast_one) simp
  then have tail:
    "yields (\<lambda>k. k \<noteq> [] \<and> letter (last k)) (seq (ratleast 2 (one letter)) (seq (wordb U) eps))"
    by simp
  show ?thesis
    unfolding domain_re_def seqs.simps
    by (rule yields_after [OF _ yields_after [OF _ tail]]) (intro advances_intros)+
qed

lemma ip_ends_with_digit: "yields (\<lambda>k. k \<noteq> [] \<and> py_isdecimal U (last k)) (ip_re U)"
proof -
  have "yields (\<lambda>k. k \<noteq> [] \<and> py_isdecimal U (last k)) (seqs [rbetween 1 3 (digit U), wordb U])"
    unfolding digit_def by (intro yields_last yields_then_wordb yields_rbetween_one) simp
  then have tail:
    "yields (\<lambda>k. k \<noteq> [] \<and> py_isdecimal U (last k))
       (seq (rbetween 1 3 (digit U)) (seq (wordb U) eps))"
    by simp
  show ?thesis
    unfolding ip_re_def seqs.simps
    by (rule yields_after [OF _ yields_after [OF _ tail]]) (intro advances_intros advances_digit)+
qed

lemma letter_not_decimal: "letter c \<Longrightarrow> \<not> py_isdecimal U c"
  by (auto simp: letter_def chr_range_def py_isdecimal_def)

lemma domain_match_not_ip_match:
  assumes "x \<in> set (re_findall (domain_re U) t1)"
  shows "x \<notin> set (re_findall (ip_re U) t2)"
proof
  assume "x \<in> set (re_findall (ip_re U) t2)"
  from findall_sound [OF ip_ends_with_digit this [unfolded re_findall_def]]
  have "py_isdecimal U (last x)" by blast
  moreover from findall_sound [OF domain_ends_with_letter assms [unfolded re_findall_def]]
  have "letter (last x)" by blast
  ultimately show False by (simp add: letter_not_decimal)
qed

text \<open>
  C9. A match of the domain pattern ends in a letter of \<^verbatim>\<open>[a-zA-Z]\<close>, a match of the IP
  pattern in a character of \<^verbatim>\<open>\d\<close>, and no letter of \<^verbatim>\<open>[a-zA-Z]\<close> is one. So no match
  of the domain pattern, in any text, is a match of the IP pattern, in any text, and the
  \<^verbatim>\<open>domains\<close> of the report are the sorted distinct matches of the domain pattern: the
  filter \<^verbatim>\<open>d not in ips\<close> removes nothing.
\<close>

theorem domain_filter_vacuous:
  "set (re_findall (domain_re U) t1) \<inter> set (re_findall (ip_re U) t2) = {} \<and>
   domains (extract_indicators U lt) = sorted_set (re_findall (domain_re U) (or_empty lt))"
proof -
  have "filter (\<lambda>d. d \<notin> set (ips (extract_indicators U lt))) (re_findall (domain_re U) (or_empty lt))
        = re_findall (domain_re U) (or_empty lt)"
    by (rule filter_True) (simp add: ips_extract set_sorted_set domain_match_not_ip_match)
  then show ?thesis
    using domain_match_not_ip_match [of _ U t1 t2] by (auto simp: domains_extract)
qed

section \<open>Evaluating the patterns on a given text\<close>

lemmas class_eval =
  is_word_def py_isalnum_def py_isalpha_def py_isdecimal_def py_isdigit_def py_isnumeric_def
  py_isspace_def letter_def label_char_def url_char_def unix_char_def win_char_def
  chr_range_def caseless_def ascii_lower_def

lemmas matcher_eval =
  py_def lit_def lits_def digit_def eps_def seq_def alt_def opt_def rplus_def rbetween_def
  ratleast_def wordb_def at_boundary_def star.simps findall.simps re_findall_def re_search_def
  eval_nat_numeral

lemma ip_example:
  "re_findall (ip_re U) (py ''Connect to 10.0.0.1 and api.example.com'') = [py ''10.0.0.1'']"
  by (simp add: ip_re_def matcher_eval class_eval)

lemma domain_example:
  "re_findall (domain_re U) (py ''Connect to 10.0.0.1 and api.example.com'') =
     [py ''api.example.com'']"
  by (simp add: domain_re_def matcher_eval class_eval)

text \<open>
  C3. On the text \<^verbatim>\<open>Connect to 10.0.0.1 and api.example.com\<close> the list \<^verbatim>\<open>ips\<close> is
  exactly \<^verbatim>\<open>["10.0.0.1"]\<close> and the list \<^verbatim>\<open>domains\<close> exactly \<^verbatim>\<open>["api.example.com"]\<close>;
  and on every input, a string of the list \<^verbatim>\<open>ips\<close> is not in the list \<^verbatim>\<open>domains\<close>.
\<close>

theorem ip_domain_exclusion:
  "ips (extract_indicators U (Some (py ''Connect to 10.0.0.1 and api.example.com''))) =
     [py ''10.0.0.1''] \<and>
   domains (extract_indicators U (Some (py ''Connect to 10.0.0.1 and api.example.com''))) =
     [py ''api.example.com''] \<and>
   (\<forall>s \<in> set (ips (extract_indicators U lt)). s \<notin> set (domains (extract_indicators U lt)))"
proof -
  have "py ''api.example.com'' \<noteq> py ''10.0.0.1''"
    by (simp add: py_def)
  then show ?thesis
    by (simp add: domains_extract set_sorted_set)
       (simp add: ips_extract or_empty_def ip_example domain_example sorted_set_def)
qed

theorem ip_domain_exclusion_witness:
  "py ''10.0.0.1'' \<in>
     set (ips (extract_indicators ucd_fragment
       (Some (py ''Connect to 10.0.0.1 and api.example.com'')))) \<and>
   py ''10.0.0.1'' \<notin>
     set (domains (extract_indicators ucd_fragment
       (Some (py ''Connect to 10.0.0.1 and api.example.com''))))"
  using ip_domain_exclusion
    [of ucd_fragment "Some (py ''Connect to 10.0.0.1 and api.example.com'')"]
  by (simp add: py_def)

section \<open>Status codes\<close>

lemma wordb_seq: "seq (wordb U) m cur = (if at_boundary U cur then m cur else [])"
  by (simp add: seq_def wordb_def)

lemma seq_wordb_eps: "seq m (seq (wordb U) eps) cur = filter (at_boundary U) (m cur)"
proof -
  have 1: "seq (wordb U) eps = (\<lambda>c. if at_boundary U c then [c] else [])"
    by (rule ext) (simp add: seq_def wordb_def eps_def)
  have "concat (map (\<lambda>c. if at_boundary U c then [c] else []) xs) = filter (at_boundary U) xs" for xs
    by (induction xs) simp_all
  then show ?thesis unfolding 1 by (simp add: seq_def)
qed

lemma status_branch:
  "seqs [lit d, rtimes 2 (digit U)] (b, r) =
     (case r of
        c1 # c2 # c3 # r' \<Rightarrow>
          if c1 = of_char d \<and> py_isdecimal U c2 \<and> py_isdecimal U c3 then [(c3 # c2 # c1 # b, r')]
          else []
      | _ \<Rightarrow> [])"
  by (simp add: seq_def lit_def digit_def eps_def eval_nat_numeral split: list.splits)

lemma status_re_eq:
  "status_re U (b, r) =
     (case r of
        c1 # c2 # c3 # r' \<Rightarrow>
          if at_boundary U (b, r) \<and> status_token U [c1, c2, c3] \<and>
             at_boundary U (c3 # c2 # c1 # b, r')
          then [(c3 # c2 # c1 # b, r')] else []
      | _ \<Rightarrow> [])"
  unfolding status_re_def seqs.simps(2) [of "wordb U"] wordb_seq
    seqs.simps(2) [of _ "[wordb U]"] seqs.simps(2) [of "wordb U" "[]"] seqs.simps(1) seq_wordb_eps
    alts.simps alt_def status_branch
  by (auto simp: status_token_def chr_range_def split: list.splits)

text \<open>\<^verbatim>\<open>findall\<close> finds every match that no earlier match overlaps.\<close>

lemma findall_head:
  assumes "m (b, t @ post) = (b', post) # rest"
  shows "t \<in> set (findall m (b, t @ post))"
  using assms by (subst findall.simps) simp

lemma findall_complete:
  assumes y: "yields (\<lambda>k. k \<noteq> []) m"
    and nonoverlap:
      "\<And>b k1 k2 r1 rest.
         m (b, k1 @ k2 @ r1) = (rev k2 @ rev k1 @ b, r1) # rest \<Longrightarrow> k1 \<noteq> [] \<Longrightarrow> k2 \<noteq> [] \<Longrightarrow>
         m (rev k1 @ b, k2 @ r1) = []"
  shows "m (rev pre @ b, t @ post) = (rev t @ rev pre @ b, post) # rest \<Longrightarrow>
         t \<in> set (findall m (b, pre @ t @ post))"
proof (induction "length pre" arbitrary: b pre rule: less_induct)
  case less
  show ?case
  proof (cases pre)
    case Nil
    with less.prems show ?thesis by (simp add: findall_head)
  next
    case (Cons a pre')
    show ?thesis
    proof (cases "m (b, pre @ t @ post)")
      case Nil
      from less.hyps [of pre' "a # b"] less.prems Cons
      have "t \<in> set (findall m (a # b, pre' @ t @ post))" by simp
      with Nil Cons show ?thesis by (subst findall.simps) simp
    next
      case c: (Cons cur' xs)
      obtain b1 r1 where cur': "cur' = (b1, r1)" by (cases cur')
      with c have "(b1, r1) \<in> set (m (b, pre @ t @ post))" by simp
      from yieldsD [OF y this] obtain k where
        k: "pre @ t @ post = k @ r1" "b1 = rev k @ b" "k \<noteq> []" by blast
      then have len: "length r1 < length (pre @ t @ post)"
        by (metis append_eq_conv_conj length_drop diff_less length_greater_0_conv
            length_append add_gr_0)
      from k(1) obtain us where
        us: "pre = k @ us \<and> us @ t @ post = r1 \<or> pre @ us = k \<and> t @ post = us @ r1"
        by (auto simp: append_eq_append_conv2)
      have "\<exists>us. pre = k @ us \<and> us @ t @ post = r1"
      proof (cases "pre = k @ us \<and> us @ t @ post = r1")
        case True
        then show ?thesis by blast
      next
        case False
        with us have B: "pre @ us = k" "t @ post = us @ r1" by auto
        show ?thesis
        proof (cases "us = []")
          case True
          with B show ?thesis by auto
        next
          case False
          from c cur' k(2) B have "m (b, pre @ us @ r1) = (rev us @ rev pre @ b, r1) # xs"
            by auto
          from nonoverlap [OF this] Cons False have "m (rev pre @ b, us @ r1) = []" by simp
          with less.prems B show ?thesis by simp
        qed
      qed
      then obtain us where A: "pre = k @ us" "us @ t @ post = r1" by blast
      with k(3) have "length us < length pre" by simp
      from less.hyps [OF this, of "rev k @ b"] less.prems A
      have "t \<in> set (findall m (rev k @ b, us @ t @ post))" by simp
      with c cur' k(2) A len show ?thesis by (subst findall.simps) simp
    qed
  qed
qed

lemma decimal_is_word: "py_isdecimal U c \<Longrightarrow> is_word U c"
  by (simp add: is_word_def py_isalnum_def)

lemma status_first_is_word: "chr_range CHR ''1'' CHR ''5'' c \<Longrightarrow> is_word U c"
  by (simp add: is_word_def py_isalnum_def py_isdecimal_def chr_range_def)

lemma status_re_yields: "yields (\<lambda>k. k \<noteq> [] \<and> status_token U k) (status_re U)"
  by (rule yieldsI) (auto simp: status_re_eq split: list.splits if_splits)

lemma status_re_nonoverlap:
  assumes "status_re U (b, k1 @ k2 @ r1) = (rev k2 @ rev k1 @ b, r1) # rest" "k1 \<noteq> []" "k2 \<noteq> []"
  shows "status_re U (rev k1 @ b, k2 @ r1) = []"
proof -
  from assms(1) obtain c1 c2 c3 where
    k: "k1 @ k2 = [c1, c2, c3]" "status_token U [c1, c2, c3]"
    by (auto simp: status_re_eq split: list.splits if_splits)
  from k(2) have w: "is_word U c1" "is_word U c2" "is_word U c3"
    by (auto simp: status_token_def decimal_is_word status_first_is_word)
  from k(1) assms(2,3) consider "k1 = [c1]" "k2 = [c2, c3]" | "k1 = [c1, c2]" "k2 = [c3]"
    by (auto simp: append_eq_Cons_conv Cons_eq_append_conv)
  then show ?thesis
    using w by cases (auto simp: status_re_eq at_boundary_def split: list.splits)
qed

lemma status_findall:
  "set (re_findall (status_re U) text) = regex_bounded_tokens U (status_token U) text"
proof (intro set_eqI iffI)
  fix x
  assume "x \<in> set (re_findall (status_re U) text)"
  from findall_sound [OF status_re_yields this [unfolded re_findall_def]]
  obtain pre post rest where
    x: "text = pre @ x @ post" "status_re U (rev pre, x @ post) = (rev x @ rev pre, post) # rest"
      "status_token U x"
    by auto
  from x(3) obtain c1 c2 c3 where c: "x = [c1, c2, c3]" by (auto simp: status_token_def)
  from x(2) have "regex_bounded U pre x post"
    unfolding c regex_bounded_def by (auto simp: status_re_eq split: if_splits)
  with x show "x \<in> regex_bounded_tokens U (status_token U) text"
    by (auto simp: regex_bounded_tokens_def)
next
  fix x
  assume "x \<in> regex_bounded_tokens U (status_token U) text"
  then obtain pre post where
    x: "status_token U x" "text = pre @ x @ post" "regex_bounded U pre x post"
    by (auto simp: regex_bounded_tokens_def)
  from x(1) obtain c1 c2 c3 where c: "x = [c1, c2, c3]" by (auto simp: status_token_def)
  from x(1,3) have "status_re U (rev pre @ [], x @ post) = (rev x @ rev pre @ [], post) # []"
    unfolding c regex_bounded_def by (simp add: status_re_eq)
  from findall_complete [OF yields_mono [OF status_re_yields] status_re_nonoverlap this] x(2)
  show "x \<in> set (re_findall (status_re U) text)"
    by (simp add: re_findall_def)
qed

lemma status_example:
  "re_findall (status_re U) (py ''returned code 404 after 999 retries'') = [py ''404'']"
  by (simp add: status_re_def matcher_eval class_eval)

section \<open>Keywords\<close>

lemma search_iff:
  "search m (b, r) \<longleftrightarrow> (\<exists>pre post. r = pre @ post \<and> m (rev pre @ b, post) \<noteq> [])"
proof (induction r arbitrary: b)
  case Nil
  show ?case by simp
next
  case (Cons c r)
  show ?case
  proof
    assume "search m (b, c # r)"
    then consider "m (b, c # r) \<noteq> []" | "search m (c # b, r)" by auto
    then show "\<exists>pre post. c # r = pre @ post \<and> m (rev pre @ b, post) \<noteq> []"
    proof cases
      case 1
      then show ?thesis by (intro exI [of _ "[]"] exI [of _ "c # r"]) simp
    next
      case 2
      with Cons.IH [of "c # b"] obtain pre post where
        "r = pre @ post" "m (rev pre @ c # b, post) \<noteq> []" by blast
      then show ?thesis by (intro exI [of _ "c # pre"] exI [of _ post]) simp
    qed
  next
    assume "\<exists>pre post. c # r = pre @ post \<and> m (rev pre @ b, post) \<noteq> []"
    then obtain pre post where p: "c # r = pre @ post" "m (rev pre @ b, post) \<noteq> []" by blast
    show "search m (b, c # r)"
    proof (cases pre)
      case Nil
      with p have "m (b, c # r) \<noteq> []" by simp
      then show ?thesis by simp
    next
      case (Cons a pre')
      with p have "r = pre' @ post" "m (rev pre' @ c # b, post) \<noteq> []" by auto
      with Cons.IH [of "c # b"] show ?thesis by auto
    qed
  qed
qed

lemma caseless_seqs:
  "seqs (map (\<lambda>x. one (caseless U x)) kw) (b, r) =
     (if length kw \<le> length r \<and> list_all2 (caseless U) kw (take (length kw) r)
      then [(rev (take (length kw) r) @ b, drop (length kw) r)] else [])"
proof (induction kw arbitrary: b r)
  case Nil
  show ?case by (simp add: eps_def)
next
  case (Cons x kw)
  show ?case
  proof (cases r)
    case Nil
    then show ?thesis by (simp add: seq_def)
  next
    case (Cons c r1)
    with Cons.IH [of "c # b" r1] show ?thesis by (simp add: seq_def)
  qed
qed

lemma kw_re_eq:
  "kw_re U kw cur =
     (if at_boundary U cur
      then filter (at_boundary U) (seqs (map (\<lambda>x. one (caseless U x)) kw) cur) else [])"
  unfolding kw_re_def seqs.simps(2) [of "wordb U"] wordb_seq
    seqs.simps(2) [of _ "[wordb U]"] seqs.simps(2) [of "wordb U" "[]"] seqs.simps(1) seq_wordb_eps
  by simp

lemma kw_re_matches:
  "kw_re U kw (b, r) \<noteq> [] \<longleftrightarrow>
     (\<exists>mid post. r = mid @ post \<and> list_all2 (caseless U) kw mid \<and> at_boundary U (b, r) \<and>
        at_boundary U (rev mid @ b, post))"
proof
  assume "kw_re U kw (b, r) \<noteq> []"
  then have "at_boundary U (b, r)" "length kw \<le> length r"
    "list_all2 (caseless U) kw (take (length kw) r)"
    "at_boundary U (rev (take (length kw) r) @ b, drop (length kw) r)"
    by (auto simp: kw_re_eq caseless_seqs split: if_splits)
  then show "\<exists>mid post. r = mid @ post \<and> list_all2 (caseless U) kw mid \<and> at_boundary U (b, r) \<and>
        at_boundary U (rev mid @ b, post)"
    by (intro exI [of _ "take (length kw) r"] exI [of _ "drop (length kw) r"]) simp
next
  assume "\<exists>mid post. r = mid @ post \<and> list_all2 (caseless U) kw mid \<and> at_boundary U (b, r) \<and>
        at_boundary U (rev mid @ b, post)"
  then obtain mid post where m: "r = mid @ post" "list_all2 (caseless U) kw mid"
    "at_boundary U (b, r)" "at_boundary U (rev mid @ b, post)" by blast
  from m(2) have "length kw = length mid" by (rule list_all2_lengthD)
  with m show "kw_re U kw (b, r) \<noteq> []"
    by (simp add: kw_re_eq caseless_seqs)
qed

lemma re_search_kw: "re_search (kw_re U kw) text \<longleftrightarrow> regex_word_match U kw text"
  unfolding re_search_def search_iff kw_re_matches regex_word_match_def regex_bounded_def
  by auto

lemma keywords_example:
  "filter (\<lambda>kw. re_search (kw_re U kw) (py ''ERROR: Access Denied'')) keyword_list =
     [py ''error'', py ''denied'']"
  by (simp add: keyword_list_def kw_re_eq caseless_seqs re_search_def py_def at_boundary_def
      class_eval)

section \<open>The shape and the order of the status codes\<close>

lemma status_codes_are_tokens:
  "c \<in> set (status_codes (extract_indicators U lt)) \<Longrightarrow> status_token U c"
  by (simp add: status_codes_extract set_sorted_set status_findall regex_bounded_tokens_def)

lemma ascii_digit_value:
  assumes "chr_range CHR ''0'' CHR ''9'' c"
  obtains x where "c = 48 + x" "x \<le> 9" "decimal_value U c = x"
proof -
  from assms have "c = 48 + (c - 48)" "c - 48 \<le> 9" "decimal_value U c = c - 48"
    by (auto simp add: chr_range_def decimal_value_def)
  then show thesis by (rule that)
qed

lemma lex_numeric_2:
  fixes x1 x2 y1 y2 :: nat
  assumes "x2 \<le> 9" "y2 \<le> 9"
  shows "(x1 < y1 \<or> x1 = y1 \<and> x2 \<le> y2) \<longleftrightarrow> 10 * x1 + x2 \<le> 10 * y1 + y2"
proof (cases x1 y1 rule: linorder_cases)
  case less
  with assms have "10 * x1 + x2 \<le> 10 * y1 + y2" by linarith
  with less show ?thesis by simp
next
  case equal
  then show ?thesis by simp
next
  case greater
  with assms have "\<not> 10 * x1 + x2 \<le> 10 * y1 + y2" by linarith
  with greater show ?thesis by simp
qed

lemma lex_numeric_3:
  fixes x1 x2 x3 y1 y2 y3 :: nat
  assumes "x2 \<le> 9" "x3 \<le> 9" "y2 \<le> 9" "y3 \<le> 9"
  shows "(x1 < y1 \<or> x1 = y1 \<and> (x2 < y2 \<or> x2 = y2 \<and> x3 \<le> y3)) \<longleftrightarrow>
         10 * (10 * x1 + x2) + x3 \<le> 10 * (10 * y1 + y2) + y3"
proof -
  have "(x1 < y1 \<or> x1 = y1 \<and> (x2 < y2 \<or> x2 = y2 \<and> x3 \<le> y3)) \<longleftrightarrow>
        (10 * x1 + x2 < 10 * y1 + y2 \<or> 10 * x1 + x2 = 10 * y1 + y2 \<and> x3 \<le> y3)"
    using lex_numeric_2 [OF assms(1,3), of x1 y1] lex_numeric_2 [OF assms(3,1), of y1 x1]
    by (cases x1 y1 rule: linorder_cases; cases x2 y2 rule: linorder_cases) simp_all
  also have "\<dots> \<longleftrightarrow> 10 * (10 * x1 + x2) + x3 \<le> 10 * (10 * y1 + y2) + y3"
    by (rule lex_numeric_2 [OF assms(2,4)])
  finally show ?thesis .
qed

lemma ascii_lex_numeric:
  assumes "status_token U a" "status_token U b" "ascii_digits a" "ascii_digits b"
  shows "a \<le> b \<longleftrightarrow> py_int U a \<le> py_int U b"
proof -
  from assms(1) obtain a1 a2 a3 where a: "a = [a1, a2, a3]" by (auto simp: status_token_def)
  from assms(2) obtain b1 b2 b3 where b: "b = [b1, b2, b3]" by (auto simp: status_token_def)
  from assms(3) have da: "chr_range CHR ''0'' CHR ''9'' a1" "chr_range CHR ''0'' CHR ''9'' a2"
    "chr_range CHR ''0'' CHR ''9'' a3"
    unfolding a by (simp_all add: ascii_digits_def)
  from assms(4) have db: "chr_range CHR ''0'' CHR ''9'' b1" "chr_range CHR ''0'' CHR ''9'' b2"
    "chr_range CHR ''0'' CHR ''9'' b3"
    unfolding b by (simp_all add: ascii_digits_def)
  from da(1) obtain x1 where x1: "a1 = 48 + x1" "x1 \<le> 9" "decimal_value U a1 = x1"
    by (rule ascii_digit_value)
  from da(2) obtain x2 where x2: "a2 = 48 + x2" "x2 \<le> 9" "decimal_value U a2 = x2"
    by (rule ascii_digit_value)
  from da(3) obtain x3 where x3: "a3 = 48 + x3" "x3 \<le> 9" "decimal_value U a3 = x3"
    by (rule ascii_digit_value)
  from db(1) obtain y1 where y1: "b1 = 48 + y1" "y1 \<le> 9" "decimal_value U b1 = y1"
    by (rule ascii_digit_value)
  from db(2) obtain y2 where y2: "b2 = 48 + y2" "y2 \<le> 9" "decimal_value U b2 = y2"
    by (rule ascii_digit_value)
  from db(3) obtain y3 where y3: "b3 = 48 + y3" "y3 \<le> 9" "decimal_value U b3 = y3"
    by (rule ascii_digit_value)
  have v: "py_int U a = 10 * (10 * x1 + x2) + x3" "py_int U b = 10 * (10 * y1 + y2) + y3"
    unfolding a b py_int_def by (simp_all add: x1(3) x2(3) x3(3) y1(3) y2(3) y3(3))
  have "a \<le> b \<longleftrightarrow> x1 < y1 \<or> x1 = y1 \<and> (x2 < y2 \<or> x2 = y2 \<and> x3 \<le> y3)"
    unfolding a b x1(1) x2(1) x3(1) y1(1) y2(1) y3(1) by auto
  also have "\<dots> \<longleftrightarrow> py_int U a \<le> py_int U b"
    unfolding v using x2(2) x3(2) y2(2) y3(2) by (rule lex_numeric_3)
  finally show ?thesis .
qed

text \<open>
  C10, as the code has it. Every element of \<^verbatim>\<open>status_codes\<close> has exactly three
  characters, the first between \<^verbatim>\<open>1\<close> and \<^verbatim>\<open>5\<close>, the other two decimal digits as
  \<^verbatim>\<open>\d\<close> matches them: any decimal digit of Unicode, not only \<^verbatim>\<open>0\<close> to \<^verbatim>\<open>9\<close>. For the
  elements made of the digits \<^verbatim>\<open>0\<close> to \<^verbatim>\<open>9\<close> only, the lexicographic order of the strings
  is the order of the numbers they denote.
\<close>

theorem status_codes_shape_and_order:
  "(\<forall>c \<in> set (status_codes (extract_indicators U lt)). status_token U c) \<and>
   (\<forall>a \<in> set (status_codes (extract_indicators U lt)).
      \<forall>b \<in> set (status_codes (extract_indicators U lt)).
        ascii_digits a \<and> ascii_digits b \<longrightarrow> (a \<le> b \<longleftrightarrow> py_int U a \<le> py_int U b))"
  by (auto dest!: status_codes_are_tokens simp: ascii_lex_numeric)

lemma status_example_3:
  "re_findall (status_re U) (py ''GET /a 200, then 404 and 500'') =
     [py ''200'', py ''404'', py ''500'']"
  by (simp add: status_re_def matcher_eval class_eval)

theorem status_codes_shape_and_order_witness:
  "py ''200'' \<in> set (status_codes (extract_indicators ucd_fragment
       (Some (py ''GET /a 200, then 404 and 500'')))) \<and>
   py ''404'' \<in> set (status_codes (extract_indicators ucd_fragment
       (Some (py ''GET /a 200, then 404 and 500'')))) \<and>
   ascii_digits (py ''200'') \<and> ascii_digits (py ''404'') \<and>
   status_token ucd_fragment (py ''404'') \<and>
   py ''200'' \<le> py ''404'' \<and>
   py_int ucd_fragment (py ''200'') \<le> py_int ucd_fragment (py ''404'')"
proof -
  have 1: "set (status_codes (extract_indicators ucd_fragment
       (Some (py ''GET /a 200, then 404 and 500'')))) = {py ''200'', py ''404'', py ''500''}"
    by (simp add: status_codes_extract or_empty_def status_example_3 set_sorted_set)
  have 2: "ascii_digits (py ''200'')" "ascii_digits (py ''404'')" "py ''200'' \<le> py ''404''"
    by (simp_all add: ascii_digits_def chr_range_def py_def)
  from status_codes_shape_and_order
    [of ucd_fragment "Some (py ''GET /a 200, then 404 and 500'')"] 1 2
  show ?thesis by simp
qed

lemma ucd_fragment_sel:
  "uni_isalpha ucd_fragment c = False"
  "uni_isdecimal ucd_fragment c = (1632 \<le> c \<and> c \<le> 1641)"
  "uni_isdigit ucd_fragment c = (1632 \<le> c \<and> c \<le> 1641)"
  "uni_isnumeric ucd_fragment c = (1632 \<le> c \<and> c \<le> 1641)"
  "uni_isspace ucd_fragment c = (c = 160)"
  "uni_decimal ucd_fragment c = c - 1632"
  "uni_caseless ucd_fragment x c = False"
  by (simp_all add: ucd_fragment_def)

lemma status_example_arabic:
  "re_findall (status_re ucd_fragment) [49, 1632, 48, 32, 49, 48, 57] =
     [[49, 1632, 48], [49, 48, 57]]"
  by (simp add: status_re_def matcher_eval class_eval ucd_fragment_sel)

text \<open>
  C10 as stated fails on a text with a digit of another script. The text below is
  \<^verbatim>\<open>1\<close>, the Arabic-Indic digit zero U+0660, \<^verbatim>\<open>0\<close>, a space and \<^verbatim>\<open>109\<close>. Both tokens are
  status codes for the pattern. The first denotes the number 100 (as \<^verbatim>\<open>int\<close> reads it)
  and contains a character that is none of \<^verbatim>\<open>0\<close> to \<^verbatim>\<open>9\<close>; sorted as a string it comes
  after \<^verbatim>\<open>109\<close>.
\<close>

theorem status_codes_non_ascii_digit:
  "status_codes (extract_indicators ucd_fragment (Some [49, 1632, 48, 32, 49, 48, 57])) =
     [[49, 48, 57], [49, 1632, 48]] \<and>
   \<not> ascii_digits [49, 1632, 48] \<and>
   py_int ucd_fragment [49, 48, 57] = 109 \<and>
   py_int ucd_fragment [49, 1632, 48] = 100"
  by (simp add: status_codes_extract or_empty_def status_example_arabic sorted_set_def
      ascii_digits_def chr_range_def py_int_def decimal_value_def ucd_fragment_sel)

section \<open>File paths\<close>

lemma first_Some_iff: "first m cur = Some x \<longleftrightarrow> (\<exists>rest. m cur = x # rest)"
  by (simp add: first_def split: list.splits)

lemma first_seq:
  "first m1 cur = Some x \<Longrightarrow> first m2 x = Some y \<Longrightarrow> first (seq m1 m2) cur = Some y"
  by (auto simp: first_Some_iff seq_def)

lemma first_one: "P c \<Longrightarrow> first (one P) (b, c # r) = Some (c # b, r)"
  by (simp add: first_def)

lemma first_lit: "c = of_char x \<Longrightarrow> first (lit x) (b, c # r) = Some (c # b, r)"
  by (simp add: lit_def first_one)

lemma first_eps: "first eps cur = Some cur"
  by (simp add: first_def eps_def)

lemma first_wordb: "at_boundary U cur \<Longrightarrow> first (wordb U) cur = Some cur"
  by (simp add: first_def wordb_def)

lemma star_no_round: "m (b, r) = [] \<Longrightarrow> star m (b, r) = [(b, r)]"
  by (subst star.simps) simp

lemma one_stops: "Z = [] \<or> \<not> P (hd Z) \<Longrightarrow> one P (b, Z) = []"
  by (cases Z) auto

lemma first_star_one:
  "list_all P k \<Longrightarrow> Z = [] \<or> \<not> P (hd Z) \<Longrightarrow>
   first (star (one P)) (b, k @ Z) = Some (rev k @ b, Z)"
proof (induction k arbitrary: b)
  case Nil
  then show ?case by (simp add: first_def star_no_round one_stops)
next
  case (Cons c k)
  from Cons.prems have "first (star (one P)) (c # b, k @ Z) = Some (rev k @ c # b, Z)"
    by (intro Cons.IH) simp_all
  then obtain rest where "star (one P) (c # b, k @ Z) = (rev k @ c # b, Z) # rest"
    by (auto simp: first_Some_iff)
  with Cons.prems show ?case
    by (subst first_Some_iff, subst star.simps) simp
qed

lemma first_rplus_one:
  "k \<noteq> [] \<Longrightarrow> list_all P k \<Longrightarrow> Z = [] \<or> \<not> P (hd Z) \<Longrightarrow>
   first (rplus (one P)) (b, k @ Z) = Some (rev k @ b, Z)"
proof (cases k)
  case Nil
  assume "k \<noteq> []"
  with Nil show ?thesis by simp
next
  case (Cons c k')
  assume "list_all P k" "Z = [] \<or> \<not> P (hd Z)"
  with Cons first_star_one [of P k' Z "c # b"] show ?thesis
    unfolding rplus_def by (intro first_seq [where x = "(c # b, k' @ Z)"]) (simp_all add: first_one)
qed

lemma app_log_unfold: "app_log = 47 # py ''var/log/app.log''"
  by (simp add: app_log_def py_def)

lemma unix_first:
  assumes "Z = [] \<or> \<not> unix_char (hd Z)"
  shows "first unix_path_re (b, app_log @ Z) = Some (rev app_log @ b, Z)"
proof -
  let ?k = "py ''var/log/app.log''"
  let ?G = "seqs [lit CHR ''/'', rplus (one unix_char)]"
  have k: "?k \<noteq> []" "list_all unix_char ?k" by (simp_all add: py_def unix_char_def)
  have 1: "first (rplus (one unix_char)) (47 # b, ?k @ Z) = Some (rev ?k @ 47 # b, Z)"
    using k assms by (rule first_rplus_one)
  have G: "first ?G (b, app_log @ Z) = Some (rev app_log @ b, Z)"
    unfolding app_log_unfold seqs.simps
    by (rule first_seq [where x = "(47 # b, ?k @ Z)"], simp add: first_lit,
        rule first_seq [OF _ first_eps]) (simp add: 1)
  from assms have "lit CHR ''/'' (rev app_log @ b, Z) = []"
    by (cases Z) (auto simp: lit_def unix_char_def)
  then have "?G (rev app_log @ b, Z) = []" by (simp add: seq_def)
  then have "first (star ?G) (rev app_log @ b, Z) = Some (rev app_log @ b, Z)"
    by (simp add: star_no_round first_def)
  with G show ?thesis
    unfolding unix_path_re_def rplus_def by (rule first_seq)
qed

lemma file_txt_unfold:
  "file_txt = 67 # 58 # 92 # (py ''Users'' @ [92] @ py ''test'' @ [92] @ py ''file.txt'')"
  by (simp add: file_txt_def py_def)

lemma findall_reach:
  assumes y: "yields (\<lambda>k. k \<noteq> [] \<and> list_all P k) m"
  shows "pre = [] \<or> \<not> P (last pre) \<Longrightarrow>
         set (findall m (rev pre @ b, r)) \<subseteq> set (findall m (b, pre @ r))"
proof (induction "length pre" arbitrary: b pre rule: less_induct)
  case less
  show ?case
  proof (cases pre)
    case Nil
    then show ?thesis by simp
  next
    case (Cons a pre')
    with less.prems have nl: "\<not> P (last pre)" by simp
    show ?thesis
    proof (cases "m (b, pre @ r)")
      case Nil
      from Cons nl have "pre' = [] \<or> \<not> P (last pre')" by auto
      from less.hyps [OF _ this, of "a # b"] Cons
      have "set (findall m (rev pre @ b, r)) \<subseteq> set (findall m (a # b, pre' @ r))" by simp
      moreover from Nil Cons have "findall m (b, pre @ r) = findall m (a # b, pre' @ r)"
        by (subst findall.simps) simp
      ultimately show ?thesis by simp
    next
      case c: (Cons cur' xs)
      obtain b1 r1 where cur': "cur' = (b1, r1)" by (cases cur')
      with c have "(b1, r1) \<in> set (m (b, pre @ r))" by simp
      from yieldsD [OF y this] obtain k where
        k: "pre @ r = k @ r1" "b1 = rev k @ b" "k \<noteq> []" "list_all P k" by blast
      from k(1) obtain us where
        us: "pre = k @ us \<and> us @ r = r1 \<or> pre @ us = k \<and> r = us @ r1"
        by (auto simp: append_eq_append_conv2)
      have "\<not> (pre @ us = k \<and> r = us @ r1)"
      proof
        assume "pre @ us = k \<and> r = us @ r1"
        with k(4) have "list_all P pre" by auto
        with Cons last_list_all [of pre P] have "P (last pre)" by simp
        with nl show False ..
      qed
      with us have A: "pre = k @ us" "us @ r = r1" by auto
      have "us \<noteq> []"
      proof
        assume "us = []"
        with A k(3,4) have "P (last pre)" by (simp add: last_list_all)
        with nl show False ..
      qed
      with A nl have "length us < length pre" "us = [] \<or> \<not> P (last us)"
        using k(3) by auto
      from less.hyps [OF this, of "rev k @ b"] A
      have "set (findall m (rev pre @ b, r)) \<subseteq> set (findall m (rev k @ b, us @ r))" by simp
      moreover from c cur' k A
      have "findall m (b, pre @ r) = k # findall m (rev k @ b, us @ r)"
        by (subst findall.simps) simp
      ultimately show ?thesis by auto
    qed
  qed
qed

lemma findall_skip:
  "(\<And>L1 L2. L = L1 @ L2 \<Longrightarrow> L2 \<noteq> [] \<Longrightarrow> m (rev L1 @ b, L2 @ r) = []) \<Longrightarrow>
   findall m (b, L @ r) = findall m (rev L @ b, r)"
proof (induction L arbitrary: b)
  case Nil
  show ?case by simp
next
  case (Cons a L)
  from Cons.prems [of "[]" "a # L"] have "m (b, a # L @ r) = []" by simp
  then have "findall m (b, (a # L) @ r) = findall m (a # b, L @ r)"
    by (subst findall.simps) simp
  also have "\<dots> = findall m (rev L @ a # b, r)"
  proof (rule Cons.IH)
    fix L1 L2
    assume "L = L1 @ L2" "L2 \<noteq> []"
    with Cons.prems [of "a # L1" L2] show "m (rev L1 @ a # b, L2 @ r) = []" by simp
  qed
  finally show ?case by simp
qed

lemma findall_token:
  assumes y: "yields (\<lambda>k. k \<noteq> [] \<and> list_all P k) m"
    and "A = [] \<or> \<not> P (last A)"
    and "\<And>L1 L2. L = L1 @ L2 \<Longrightarrow> L2 \<noteq> [] \<Longrightarrow> m (rev L1 @ rev A, L2 @ t @ Z) = []"
    and "first m (rev L @ rev A, t @ Z) = Some (rev t @ rev L @ rev A, Z)"
  shows "t \<in> set (re_findall m (A @ L @ t @ Z))"
proof -
  from assms(4) have "t \<in> set (findall m (rev L @ rev A, t @ Z))"
    by (auto simp: first_Some_iff intro: findall_head)
  also from assms(3) have "findall m (rev L @ rev A, t @ Z) = findall m (rev A, L @ t @ Z)"
    by (rule findall_skip [symmetric])
  also from findall_reach [OF y assms(2), of "[]"]
  have "set (findall m (rev A, L @ t @ Z)) \<subseteq> set (findall m ([], A @ L @ t @ Z))" by simp
  finally show ?thesis by (simp add: re_findall_def)
qed

lemma yields_all_seq:
  "yields (list_all P) m1 \<Longrightarrow> yields (list_all P) m2 \<Longrightarrow> yields (list_all P) (seq m1 m2)"
  by (rule yields_seq [where ?L1.0 = "list_all P" and ?L2.0 = "list_all P"]) auto

lemma yields_ne_seq1:
  "yields (\<lambda>k. k \<noteq> [] \<and> list_all P k) m1 \<Longrightarrow> yields (list_all P) m2 \<Longrightarrow>
   yields (\<lambda>k. k \<noteq> [] \<and> list_all P k) (seq m1 m2)"
  by (rule yields_seq [where ?L1.0 = "\<lambda>k. k \<noteq> [] \<and> list_all P k" and ?L2.0 = "list_all P"])
    auto

lemma yields_ne_seq2:
  "yields (list_all P) m1 \<Longrightarrow> yields (\<lambda>k. k \<noteq> [] \<and> list_all P k) m2 \<Longrightarrow>
   yields (\<lambda>k. k \<noteq> [] \<and> list_all P k) (seq m1 m2)"
  by (rule yields_seq [where ?L1.0 = "list_all P" and ?L2.0 = "\<lambda>k. k \<noteq> [] \<and> list_all P k"])
    auto

lemma yields_ne_all: "yields (\<lambda>k. k \<noteq> [] \<and> list_all P k) m \<Longrightarrow> yields (list_all P) m"
  by (erule yields_mono) simp

lemma yields_ne_one: "(\<And>c. Q c \<Longrightarrow> P c) \<Longrightarrow> yields (\<lambda>k. k \<noteq> [] \<and> list_all P k) (one Q)"
  by (rule yields_one) simp

lemma yields_ne_lit: "P (of_char x) \<Longrightarrow> yields (\<lambda>k. k \<noteq> [] \<and> list_all P k) (lit x)"
  by (rule yields_lit) simp

lemma unix_path_re_yields: "yields (\<lambda>k. k \<noteq> [] \<and> list_all unix_char k) unix_path_re"
proof -
  have G: "yields (\<lambda>k. k \<noteq> [] \<and> list_all unix_char k)
             (seqs [lit CHR ''/'', rplus (one unix_char)])"
    unfolding seqs.simps
    by (intro yields_ne_seq1 yields_ne_lit yields_all_seq yields_eps
        yields_ne_all [OF yields_any_rplus_one]) (simp_all add: unix_char_def)
  show ?thesis
    unfolding unix_path_re_def
    by (subst rplus_def, intro yields_ne_seq1 G yields_star [OF G]) auto
qed

lemma win_path_re_yields: "yields (\<lambda>k. k \<noteq> [] \<and> list_all win_char k) (win_path_re U)"
  unfolding win_path_re_def seqs.simps
  by (intro yields_ne_seq2 [of _ "wordb U"] yields_wordb yields_ne_seq1 yields_ne_one
      yields_all_seq yields_ne_all [OF yields_ne_lit] yields_ne_all [OF yields_ne_one]
      yields_ne_all [OF yields_any_rplus_one] yields_eps)
    (auto simp: win_char_def letter_def chr_range_def)

lemma word_before_rev:
  "xs \<noteq> [] \<Longrightarrow> word_before U (rev xs @ b, r) = is_word U (last xs)"
  by (cases xs rule: rev_cases) simp_all

lemma not_win_char_not_word: "\<not> win_char c \<Longrightarrow> \<not> is_word U c"
  by (auto simp: class_eval)

lemma unix_example_swallow:
  "re_findall unix_path_re (file_txt @ py '' '' @ app_log) = [app_log]"
  by (simp add: unix_path_re_def matcher_eval class_eval file_txt_def app_log_def)

lemma win_example_swallow:
  "re_findall (win_path_re U) (file_txt @ py '' '' @ app_log) = [file_txt @ py '' '' @ app_log]"
  by (simp add: win_path_re_def matcher_eval class_eval file_txt_def app_log_def)

text \<open>
  C7 as stated fails when the Windows-style path is not the last thing on its line: the
  pattern takes everything up to the last word boundary of the line. On the text
  \<^verbatim>\<open>C:\Users\test\file.txt /var/log/app.log\<close> the list \<^verbatim>\<open>file_paths\<close> has the Unix-style
  path and the whole line, and not \<^verbatim>\<open>C:\Users\test\file.txt\<close>.
\<close>

theorem windows_path_swallows_line:
  "file_paths (extract_indicators ucd_fragment (Some (file_txt @ py '' '' @ app_log))) =
     [app_log, file_txt @ py '' '' @ app_log] \<and>
   file_txt \<notin> set (file_paths
     (extract_indicators ucd_fragment (Some (file_txt @ py '' '' @ app_log))))"
  by (simp add: file_paths_extract or_empty_def unix_example_swallow win_example_swallow
      sorted_set_def)
     (simp add: file_txt_def app_log_def py_def)

section \<open>Matches are never empty\<close>

text \<open>
  \<open>star\<close> does not repeat a round that consumed nothing, and \<open>findall\<close> moves one
  character on after an empty match. Neither case arises for a body or a pattern whose
  matches are all non-empty, and those of \<^verbatim>\<open>extract_indicators\<close> are.
\<close>

lemma star_unguarded:
  assumes "yields (\<lambda>k. k \<noteq> []) m"
  shows "star m cur = concat (map (star m) (m cur)) @ [cur]"
proof -
  obtain b r where cur: "cur = (b, r)" by (cases cur)
  have "map (\<lambda>(b', r'). if length r' < length r then star m (b', r') else []) (m (b, r)) =
        map (star m) (m (b, r))"
  proof (rule map_cong [OF refl])
    fix x
    assume x: "x \<in> set (m (b, r))"
    obtain b' r' where x': "x = (b', r')" by (cases x)
    from yieldsD [OF assms x [unfolded x']] have "length r' < length r" by auto
    with x' show "(case x of (b', r') \<Rightarrow> if length r' < length r then star m (b', r') else []) =
                  star m x" by simp
  qed
  then show ?thesis unfolding cur by (subst star.simps) (simp only:)
qed

lemma findall_unguarded:
  assumes "yields (\<lambda>k. k \<noteq> []) m"
  shows "findall m (b, r) =
     (case m (b, r) of
        [] \<Rightarrow> (case r of [] \<Rightarrow> [] | c # r1 \<Rightarrow> findall m (c # b, r1))
      | (b', r') # _ \<Rightarrow> matched (b, r) (b', r') # findall m (b', r'))"
proof (cases "m (b, r)")
  case Nil
  then show ?thesis by (subst findall.simps) simp
next
  case (Cons x xs)
  obtain b' r' where x: "x = (b', r')" by (cases x)
  with Cons have "(b', r') \<in> set (m (b, r))" by simp
  from yieldsD [OF assms this] have "length r' < length r" by auto
  with Cons x show ?thesis by (subst findall.simps) simp
qed

lemma nonempty_seq1:
  "yields (\<lambda>k. k \<noteq> []) m1 \<Longrightarrow> advances m2 \<Longrightarrow> yields (\<lambda>k. k \<noteq> []) (seq m1 m2)"
  unfolding advances_def
  by (rule yields_seq [where ?L1.0 = "\<lambda>k. k \<noteq> []" and ?L2.0 = "\<lambda>k. True"]) auto

lemma nonempty_seq2:
  "advances m1 \<Longrightarrow> yields (\<lambda>k. k \<noteq> []) m2 \<Longrightarrow> yields (\<lambda>k. k \<noteq> []) (seq m1 m2)"
  unfolding advances_def
  by (rule yields_seq [where ?L1.0 = "\<lambda>k. True" and ?L2.0 = "\<lambda>k. k \<noteq> []"]) auto

lemma nonempty_one: "yields (\<lambda>k. k \<noteq> []) (one P)"
  by (rule yields_one) simp

lemma nonempty_lit: "yields (\<lambda>k. k \<noteq> []) (lit x)"
  by (rule yields_lit) simp

lemma nonempty_rplus: "yields (\<lambda>k. k \<noteq> []) m \<Longrightarrow> yields (\<lambda>k. k \<noteq> []) (rplus m)"
  unfolding rplus_def
  by (rule nonempty_seq1, assumption, rule advances_star) (rule advances_yields)

text \<open>The bodies of the repetitions without bound.\<close>

lemma star_bodies_nonempty:
  "yields (\<lambda>k. k \<noteq> []) (one P)"
  "yields (\<lambda>k. k \<noteq> []) (seqs [rplus (one label_char), lit CHR ''.''])"
  "yields (\<lambda>k. k \<noteq> []) (seqs [lit CHR ''/'', rplus (one unix_char)])"
  by (simp_all add: nonempty_one nonempty_seq1 nonempty_lit nonempty_rplus advances_intros)

text \<open>The patterns given to \<^verbatim>\<open>findall\<close>.\<close>

lemma patterns_nonempty:
  "yields (\<lambda>k. k \<noteq> []) (ip_re U)"
  "yields (\<lambda>k. k \<noteq> []) (domain_re U)"
  "yields (\<lambda>k. k \<noteq> []) (url_re U)"
  "yields (\<lambda>k. k \<noteq> []) unix_path_re"
  "yields (\<lambda>k. k \<noteq> []) (win_path_re U)"
  "yields (\<lambda>k. k \<noteq> []) (status_re U)"
proof -
  show "yields (\<lambda>k. k \<noteq> []) (ip_re U)"
    by (rule yields_mono [OF ip_ends_with_digit]) simp
  show "yields (\<lambda>k. k \<noteq> []) (domain_re U)"
    by (rule yields_mono [OF domain_ends_with_letter]) simp
  show "yields (\<lambda>k. k \<noteq> []) unix_path_re"
    by (rule yields_mono [OF unix_path_re_yields]) simp
  show "yields (\<lambda>k. k \<noteq> []) (win_path_re U)"
    by (rule yields_mono [OF win_path_re_yields]) simp
  show "yields (\<lambda>k. k \<noteq> []) (status_re U)"
    by (rule yields_mono [OF status_re_yields]) simp
  have "advances (lits s)" for s
    unfolding lits_def by (rule advances_seqs) (simp add: list_all_iff advances_lit)
  then show "yields (\<lambda>k. k \<noteq> []) (url_re U)"
    unfolding url_re_def seqs.simps
    by (intro nonempty_seq2 [of "wordb U"] nonempty_seq2 [of "lits _"] nonempty_seq2 [of "opt _"]
        nonempty_seq1 [of "rplus _"] nonempty_rplus nonempty_one advances_intros)
qed

section \<open>Word boundaries in the text\<close>

lemma word_before_ends_word: "word_before U (rev pre, r) = ends_word U pre"
  by (cases pre rule: rev_cases) (simp_all add: ends_word_def alnum_or_underscore_def is_word_def)

lemma word_after_starts_word: "word_after U (b, post) = starts_word U post"
  by (cases post) (simp_all add: starts_word_def alnum_or_underscore_def is_word_def)

lemma at_boundary_word_boundary: "at_boundary U (rev pre, post) = word_boundary U pre post"
  by (simp add: at_boundary_def word_boundary_def word_before_ends_word word_after_starts_word)

lemma regex_bounded_eq:
  "regex_bounded U pre t post =
     (word_boundary U pre (t @ post) \<and> word_boundary U (pre @ t) post)"
  using at_boundary_word_boundary [of U "pre @ t" post]
  by (simp add: regex_bounded_def at_boundary_word_boundary)

lemma regex_word_match_eq: "regex_word_match U kw text = occurs_as_word U kw text"
  by (simp add: regex_word_match_def occurs_as_word_def regex_bounded_eq)

lemma status_token_bounded:
  assumes "status_token U t"
  shows "regex_bounded U pre t post \<longleftrightarrow> \<not> ends_word U pre \<and> \<not> starts_word U post"
proof -
  from assms obtain c1 c2 c3 where t: "t = [c1, c2, c3]" "is_word U c1" "is_word U c3"
    by (auto simp: status_token_def decimal_is_word status_first_is_word)
  then have "starts_word U (t @ post)" "ends_word U (pre @ t)"
    by (simp_all add: starts_word_def ends_word_def alnum_or_underscore_def is_word_def)
  then show ?thesis by (auto simp: regex_bounded_eq word_boundary_def)
qed

text \<open>
  C4, as the code has it. The list \<^verbatim>\<open>status_codes\<close> has no duplicates, and its elements
  are exactly the tokens of three characters, the first one of \<^verbatim>\<open>1\<close> to \<^verbatim>\<open>5\<close>, the
  other two decimal digits as \<^verbatim>\<open>\d\<close> matches them (any decimal digit of Unicode), that
  occur in the text with no word character right before and none right after, a word
  character being an alphanumeric character or the underscore. On the text
  \<^verbatim>\<open>returned code 404 after 999 retries\<close> the list contains \<^verbatim>\<open>404\<close> and not \<^verbatim>\<open>999\<close>.
\<close>

theorem status_codes_free_standing_tokens:
  "set (status_codes (extract_indicators U lt)) =
     {t. status_token U t \<and>
         (\<exists>pre post. or_empty lt = pre @ t @ post \<and> \<not> ends_word U pre \<and> \<not> starts_word U post)} \<and>
   distinct (status_codes (extract_indicators U lt)) \<and>
   py ''404'' \<in> set (status_codes
     (extract_indicators U (Some (py ''returned code 404 after 999 retries'')))) \<and>
   py ''999'' \<notin> set (status_codes
     (extract_indicators U (Some (py ''returned code 404 after 999 retries''))))"
proof -
  have 1: "set (status_codes (extract_indicators U lt)) =
     {t. status_token U t \<and>
         (\<exists>pre post. or_empty lt = pre @ t @ post \<and> \<not> ends_word U pre \<and> \<not> starts_word U post)}"
    by (simp add: status_codes_extract set_sorted_set status_findall regex_bounded_tokens_def
        status_token_bounded cong: conj_cong)
  have 2: "py ''999'' \<noteq> py ''404''" by (simp add: py_def)
  have 3: "status_codes
     (extract_indicators U (Some (py ''returned code 404 after 999 retries''))) = [py ''404'']"
    by (simp add: status_codes_extract or_empty_def status_example sorted_set_def)
  from 1 2 show ?thesis unfolding 3
    by (simp add: status_codes_extract distinct_sorted_set)
qed

text \<open>
  C4 as stated, with word-bounded as the glossary defines it, fails after an underscore.
  In \<^verbatim>\<open>http_404\<close> the token \<^verbatim>\<open>404\<close> is a three-digit token from 100 to 599 that
  neither begins nor ends inside an alphanumeric run; the pattern takes the underscore for
  a word character and does not match it.
\<close>

lemma status_example_underscore: "re_findall (status_re U) (py ''http_404'') = []"
  by (simp add: status_re_def matcher_eval class_eval)

theorem status_codes_underscore:
  "status_codes (extract_indicators ucd_fragment (Some (py ''http_404''))) = [] \<and>
   py ''404'' \<in> spec_status_tokens ucd_fragment (py ''http_404'')"
proof -
  have "py ''http_404'' = py ''http_'' @ py ''404'' @ []" by (simp add: py_def)
  moreover have "length (py ''404'') = 3" "ascii_digits (py ''404'')"
    "chr_range CHR ''1'' CHR ''5'' (hd (py ''404''))"
    "spec_word_bounded ucd_fragment (py ''http_'') (py ''404'') []"
    by (simp_all add: py_def ascii_digits_def chr_range_def spec_word_bounded_def ends_alnum_def
        starts_alnum_def class_eval)
  ultimately have "py ''404'' \<in> spec_status_tokens ucd_fragment (py ''http_404'')"
    unfolding spec_status_tokens_def by blast
  then show ?thesis
    by (simp add: status_codes_extract or_empty_def status_example_underscore sorted_set_def)
qed

text \<open>
  C5, as the code has it. The list \<^verbatim>\<open>keywords\<close> consists, in the order of the fixed list
  \<^verbatim>\<open>error\<close>, \<^verbatim>\<open>failed\<close>, \<^verbatim>\<open>denied\<close>, \<^verbatim>\<open>timeout\<close>, \<^verbatim>\<open>exception\<close>,
  \<^verbatim>\<open>forbidden\<close>, \<^verbatim>\<open>unauthorized\<close>, of exactly those of its literals that some stretch of
  the text matches without regard to case, with a word boundary at both ends of the
  stretch, a word character being an alphanumeric character or the underscore; each is
  stored as the list has it, in lower case. On \<^verbatim>\<open>ERROR: Access Denied\<close> it is
  \<^verbatim>\<open>["error", "denied"]\<close>.
\<close>

theorem keywords_occur_as_words:
  "keywords (extract_indicators U lt) =
     filter (\<lambda>kw. occurs_as_word U kw (or_empty lt))
       [py ''error'', py ''failed'', py ''denied'', py ''timeout'', py ''exception'',
        py ''forbidden'', py ''unauthorized''] \<and>
   keywords (extract_indicators U (Some (py ''ERROR: Access Denied''))) =
     [py ''error'', py ''denied'']"
  by (simp add: keywords_extract or_empty_def keywords_example)
     (simp add: re_search_kw regex_word_match_eq keyword_list_def)

text \<open>
  C5 as stated, with whole word as the glossary defines it, fails before an underscore.
  In \<^verbatim>\<open>error_code\<close> the keyword \<^verbatim>\<open>error\<close> has non-alphanumeric edges, the start of
  the text and the underscore; the pattern takes the underscore for a word character and
  finds no keyword.
\<close>

lemma keywords_example_underscore:
  "filter (\<lambda>kw. re_search (kw_re U kw) (py ''error_code'')) keyword_list = []"
  by (simp add: keyword_list_def kw_re_eq caseless_seqs re_search_def py_def at_boundary_def
      class_eval)

theorem keywords_underscore:
  "keywords (extract_indicators ucd_fragment (Some (py ''error_code''))) = [] \<and>
   spec_whole_word ucd_fragment (py ''error'') (py ''error_code'')"
proof -
  have "py ''error_code'' = [] @ py ''error'' @ py ''_code''" by (simp add: py_def)
  moreover have "list_all2 (caseless ucd_fragment) (py ''error'') (py ''error'')"
    "\<not> ends_alnum ucd_fragment []" "\<not> starts_alnum ucd_fragment (py ''_code'')"
    by (simp_all add: py_def ends_alnum_def starts_alnum_def class_eval)
  ultimately have "spec_whole_word ucd_fragment (py ''error'') (py ''error_code'')"
    unfolding spec_whole_word_def by blast
  then show ?thesis
    by (simp add: keywords_extract or_empty_def keywords_example_underscore)
qed

section \<open>Determinism\<close>

lemma sort_iteration_order: "ys \<in> iteration_orders xs \<Longrightarrow> sort ys = sorted_set xs"
  unfolding iteration_orders_def sorted_set_def
  by (intro sorted_distinct_set_unique) simp_all

lemma remdups_iteration_order: "remdups xs \<in> iteration_orders xs"
  by (simp add: iteration_orders_def)

text \<open>
  C8. Whatever the orders in which the sets are iterated, a call on a given argument
  returns one and the same report, the one \<open>extract_indicators\<close> computes: two calls on
  the same text produce identical reports.
\<close>

theorem every_run_same_report:
  "possible_reports U lt = {extract_indicators U lt}"
proof (intro set_eqI iffI)
  fix r
  assume "r \<in> possible_reports U lt"
  then obtain o_ips o_domains o_urls o_paths o_statuses where
    o: "o_ips \<in> iteration_orders (re_findall (ip_re U) (or_empty lt))"
      "o_domains \<in> iteration_orders
         (filter (\<lambda>d. d \<notin> set (sort o_ips)) (re_findall (domain_re U) (or_empty lt)))"
      "o_urls \<in> iteration_orders (re_findall (url_re U) (or_empty lt))"
      "o_paths \<in> iteration_orders
         (re_findall unix_path_re (or_empty lt) @ re_findall (win_path_re U) (or_empty lt))"
      "o_statuses \<in> iteration_orders (re_findall (status_re U) (or_empty lt))"
    and r: "r = \<lparr>ok = True,
                counts = [''ips'' \<mapsto> int (length (sort o_ips)),
                          ''domains'' \<mapsto> int (length (sort o_domains)),
                          ''urls'' \<mapsto> int (length (sort o_urls)),
                          ''file_paths'' \<mapsto> int (length (sort o_paths)),
                          ''status_codes'' \<mapsto> int (length (sort o_statuses))],
                ips = sort o_ips,
                domains = sort o_domains,
                urls = sort o_urls,
                file_paths = sort o_paths,
                status_codes = sort o_statuses,
                keywords =
                  filter (\<lambda>kw. re_search (kw_re U kw) (or_empty lt)) keyword_list\<rparr>"
    unfolding possible_reports_def by blast
  note e1 = sort_iteration_order [OF o(1)]
  note e2 = sort_iteration_order [OF o(2) [unfolded e1]]
  note e3 = sort_iteration_order [OF o(3)]
  note e4 = sort_iteration_order [OF o(4)]
  note e5 = sort_iteration_order [OF o(5)]
  have "r = extract_indicators U lt"
    unfolding r e1 e2 e3 e4 e5 extract_indicators_def Let_def by (rule refl)
  then show "r \<in> {extract_indicators U lt}" by simp
next
  fix r
  assume "r \<in> {extract_indicators U lt}"
  then have r: "r = extract_indicators U lt" by simp
  show "r \<in> possible_reports U lt"
    unfolding possible_reports_def r extract_indicators_def Let_def
    apply (rule CollectI)
    apply (rule exI [of _ "remdups (re_findall (ip_re U) (or_empty lt))"])
    apply (rule exI [of _ "remdups (filter (\<lambda>d. d \<notin> set (sorted_set (re_findall (ip_re U) (or_empty lt))))
             (re_findall (domain_re U) (or_empty lt)))"])
    apply (rule exI [of _ "remdups (re_findall (url_re U) (or_empty lt))"])
    apply (rule exI [of _ "remdups (re_findall unix_path_re (or_empty lt) @
              re_findall (win_path_re U) (or_empty lt))"])
    apply (rule exI [of _ "remdups (re_findall (status_re U) (or_empty lt))"])
    apply (simp add: remdups_iteration_order sorted_set_def iteration_orders_def)
    done
qed

section \<open>The two paths in a text\<close>

lemma seq_assoc: "seq (seq m1 m2) m3 = seq m1 (seq m2 m3)"
proof (rule ext)
  fix cur
  have 1: "seq m2 m3 = (\<lambda>x. concat (map m3 (m2 x)))"
    by (rule ext) (simp add: seq_def)
  have "concat (map m3 (concat (map m2 xs))) = concat (map (\<lambda>x. concat (map m3 (m2 x))) xs)" for xs
    by (induction xs) simp_all
  then show "seq (seq m1 m2) m3 cur = seq m1 (seq m2 m3) cur"
    unfolding 1 by (simp add: seq_def)
qed

lemma star_one_Cons: "P c \<Longrightarrow> star (one P) (b, c # r) = star (one P) (c # b, r) @ [(b, c # r)]"
  by (subst star.simps) simp

lemma star_one_stop: "Z = [] \<or> \<not> P (hd Z) \<Longrightarrow> star (one P) (b, Z) = [(b, Z)]"
  by (simp add: star_no_round one_stops)

lemma no_boundary_in_run:
  "list_all P R \<Longrightarrow> Z = [] \<or> \<not> P (hd Z) \<Longrightarrow>
   (\<And>R1 R2. R = R1 @ R2 \<Longrightarrow> \<not> B (rev R1 @ b, R2 @ Z)) \<Longrightarrow>
   filter B (star (one P) (b, R @ Z)) = []"
proof (induction R arbitrary: b)
  case Nil
  from Nil.prems(3) [of "[]" "[]"] Nil.prems(2) show ?case by (simp add: star_one_stop)
next
  case (Cons c R)
  have "filter B (star (one P) (c # b, R @ Z)) = []"
  proof (rule Cons.IH)
    from Cons.prems(1) show "list_all P R" by simp
    show "Z = [] \<or> \<not> P (hd Z)" by (rule Cons.prems(2))
    fix R1 R2
    assume "R = R1 @ R2"
    with Cons.prems(3) [of "c # R1" R2] show "\<not> B (rev R1 @ c # b, R2 @ Z)" by simp
  qed
  moreover from Cons.prems(3) [of "[]" "c # R"] have "\<not> B (b, c # R @ Z)" by simp
  ultimately show ?case using Cons.prems(1) by (simp add: star_one_Cons)
qed

lemma boundary_after_run:
  "list_all P k \<Longrightarrow> filter B (star (one P) (rev k @ b, r)) = x # xs \<Longrightarrow>
   \<exists>ys. filter B (star (one P) (b, k @ r)) = x # ys"
proof (induction k arbitrary: b)
  case Nil
  then show ?case by simp
next
  case (Cons c k)
  from Cons.prems have "\<exists>ys. filter B (star (one P) (c # b, k @ r)) = x # ys"
    by (intro Cons.IH) simp_all
  with Cons.prems(1) show ?case by (auto simp: star_one_Cons)
qed

lemma first_run_boundary:
  assumes "list_all P k" "list_all P R" "Z = [] \<or> \<not> P (hd Z)"
    and "at_boundary U (rev k @ b, R @ Z)"
    and "\<And>R1 R2. R = R1 @ R2 \<Longrightarrow> R1 \<noteq> [] \<Longrightarrow> \<not> at_boundary U (rev R1 @ rev k @ b, R2 @ Z)"
  shows "first (seq (star (one P)) (seq (wordb U) eps)) (b, k @ R @ Z) = Some (rev k @ b, R @ Z)"
proof -
  have "filter (at_boundary U) (star (one P) (rev k @ b, R @ Z)) = [(rev k @ b, R @ Z)]"
  proof (cases R)
    case Nil
    with assms(3,4) show ?thesis by (simp add: star_one_stop)
  next
    case (Cons c R')
    have "filter (at_boundary U) (star (one P) (c # rev k @ b, R' @ Z)) = []"
    proof (rule no_boundary_in_run)
      from assms(2) Cons show "list_all P R'" by simp
      show "Z = [] \<or> \<not> P (hd Z)" by (rule assms(3))
      fix R1 R2
      assume "R' = R1 @ R2"
      with assms(5) [of "c # R1" R2] Cons
      show "\<not> at_boundary U (rev R1 @ c # rev k @ b, R2 @ Z)" by simp
    qed
    with assms(2,4) Cons show ?thesis by (simp add: star_one_Cons)
  qed
  from boundary_after_run [OF assms(1) this]
  show ?thesis by (auto simp: seq_wordb_eps first_Some_iff)
qed

lemma is_word_alnum_or_underscore: "is_word U c = alnum_or_underscore U c"
  by (simp add: is_word_def alnum_or_underscore_def)

lemma win_first:
  assumes "list_all (\<lambda>c. win_char c \<and> \<not> alnum_or_underscore U c) R"
    and "Z = [] \<or> \<not> win_char (hd Z)" and "\<not> word_before U (b, r0)"
  shows "first (win_path_re U) (b, file_txt @ R @ Z) = Some (rev file_txt @ b, R @ Z)"
proof -
  let ?k = "py ''sers'' @ [92] @ py ''test'' @ [92] @ py ''file.txt''"
  let ?b = "85 # 92 # 58 # 67 # b"
  have R: "list_all win_char R" "list_all (\<lambda>c. \<not> is_word U c) R"
    using assms(1) by (simp_all add: list_all_iff is_word_alnum_or_underscore)
  have k: "list_all win_char ?k" by (simp add: py_def win_char_def)
  have nw: "\<not> word_after U (b', R2 @ Z)" if "R = R1 @ R2" for b' R1 R2
  proof (cases R2)
    case Nil
    with assms(2) show ?thesis by (cases Z) (auto simp: class_eval)
  next
    case (Cons c R2')
    with R(2) that show ?thesis by simp
  qed
  have "word_before U (rev ?k @ ?b, R @ Z)" by (simp add: py_def class_eval)
  with nw [of "[]" R] have 1: "at_boundary U (rev ?k @ ?b, R @ Z)"
    by (simp add: at_boundary_def)
  have 2: "\<not> at_boundary U (rev R1 @ rev ?k @ ?b, R2 @ Z)" if "R = R1 @ R2" "R1 \<noteq> []" for R1 R2
  proof -
    from that R(2) have "\<not> is_word U (last R1)" by (auto simp: list_all_iff)
    with that(2) have "\<not> word_before U (rev R1 @ rev ?k @ ?b, R2 @ Z)"
      by (simp add: word_before_rev)
    with nw [OF that(1)] show ?thesis by (simp add: at_boundary_def)
  qed
  have run: "first (seq (star (one win_char)) (seq (wordb U) eps)) (?b, ?k @ R @ Z) =
               Some (rev ?k @ ?b, R @ Z)"
    using k R(1) assms(2) 1 2 by (rule first_run_boundary)
  have "word_before U (b, 67 # 58 # 92 # 85 # ?k @ R @ Z) = word_before U (b, r0)"
    by (cases b) simp_all
  with assms(3) have 3: "at_boundary U (b, 67 # 58 # 92 # 85 # ?k @ R @ Z)"
    by (simp add: at_boundary_def class_eval)
  have "first (win_path_re U) (b, 67 # 58 # 92 # 85 # ?k @ R @ Z) = Some (rev ?k @ ?b, R @ Z)"
    unfolding win_path_re_def seqs.simps rplus_def seq_assoc
    apply (rule first_seq [OF first_wordb])
     apply (rule 3)
    apply (rule first_seq [where x = "(67 # b, 58 # 92 # 85 # ?k @ R @ Z)"])
     apply (simp add: first_one letter_def chr_range_def)
    apply (rule first_seq [where x = "(58 # 67 # b, 92 # 85 # ?k @ R @ Z)"])
     apply (simp add: first_lit)
    apply (rule first_seq [where x = "(92 # 58 # 67 # b, 85 # ?k @ R @ Z)"])
     apply (simp add: first_one)
    apply (rule first_seq [where x = "(?b, ?k @ R @ Z)"])
     apply (simp add: first_one win_char_def)
    apply (rule run [unfolded seq_assoc])
    done
  then show ?thesis by (simp add: file_txt_def py_def)
qed

lemma one_mem: "(b', r') \<in> set (one P (b, r)) \<Longrightarrow> \<exists>c. r = c # r' \<and> b' = c # b \<and> P c"
  by (cases r) (auto split: if_splits)

lemma win_needs_drive:
  "win_path_re U (b, r) \<noteq> [] \<Longrightarrow>
   at_boundary U (b, r) \<and> (\<exists>x r'. r = x # 58 # 92 # r' \<and> letter x)"
  unfolding win_path_re_def seqs.simps wordb_seq
  by (auto simp: seq_def lit_def split: if_splits dest!: one_mem)

lemma win_no_drive_start:
  assumes "L = La @ Lb" "Lb \<noteq> []"
    and "\<forall>La x Lb. L = La @ x # 58 # 92 # Lb \<and> letter x \<longrightarrow> ends_word U La"
  shows "win_path_re U (rev La @ b, Lb @ file_txt @ Z) = []"
proof (rule ccontr)
  assume "win_path_re U (rev La @ b, Lb @ file_txt @ Z) \<noteq> []"
  from win_needs_drive [OF this] obtain x r' where
    d: "at_boundary U (rev La @ b, Lb @ file_txt @ Z)" "Lb @ file_txt @ Z = x # 58 # 92 # r'"
      "letter x"
    by blast
  from d(2) assms(2) obtain Lb' where Lb: "Lb = x # 58 # 92 # Lb'"
    by (cases Lb; cases "tl Lb"; cases "tl (tl Lb)") (auto simp: file_txt_unfold)
  with assms(1,3) d(3) have e: "ends_word U La" by blast
  then have "La \<noteq> []" by (simp add: ends_word_def)
  with e have "word_before U (rev La @ b, Lb @ file_txt @ Z)"
    by (simp add: word_before_rev ends_word_def is_word_alnum_or_underscore)
  moreover from d(3) have "word_after U (rev La @ b, Lb @ file_txt @ Z)"
    unfolding Lb by (auto simp: letter_def chr_range_def class_eval)
  ultimately show False using d(1) by (simp add: at_boundary_def)
qed

lemma unix_no_slash: "Lb \<noteq> [] \<Longrightarrow> 47 \<notin> set Lb \<Longrightarrow> unix_path_re (b, Lb @ r) = []"
  unfolding unix_path_re_def rplus_def seqs.simps
  by (cases Lb) (auto simp: seq_def lit_def)

lemma app_log_found:
  assumes "app_log_delimited text"
  shows "app_log \<in> set (re_findall unix_path_re text)"
proof -
  from assms obtain A L Z where
    t: "text = A @ L @ app_log @ Z" "A = [] \<or> \<not> unix_char (last A)" "47 \<notin> set L"
      "Z = [] \<or> \<not> unix_char (hd Z)"
    unfolding app_log_delimited_def by blast
  have "app_log \<in> set (re_findall unix_path_re (A @ L @ app_log @ Z))"
    using unix_path_re_yields t(2)
  proof (rule findall_token)
    fix L1 L2
    assume "L = L1 @ L2" "L2 \<noteq> []"
    with t(3) show "unix_path_re (rev L1 @ rev A, L2 @ app_log @ Z) = []"
      by (intro unix_no_slash) auto
  next
    show "first unix_path_re (rev L @ rev A, app_log @ Z) = Some (rev app_log @ rev L @ rev A, Z)"
      using t(4) by (rule unix_first)
  qed
  with t(1) show ?thesis by simp
qed

lemma file_txt_found:
  assumes "file_txt_ends_line U text"
  shows "file_txt \<in> set (re_findall (win_path_re U) text)"
proof -
  from assms obtain A L R Z where
    t: "text = A @ L @ file_txt @ R @ Z" "A = [] \<or> \<not> win_char (last A)"
      "\<forall>La x Lb. L = La @ x # 58 # 92 # Lb \<and> letter x \<longrightarrow> ends_word U La"
      "\<not> ends_word U L"
      "list_all (\<lambda>c. win_char c \<and> \<not> alnum_or_underscore U c) R"
      "Z = [] \<or> \<not> win_char (hd Z)"
    unfolding file_txt_ends_line_def by blast
  have nw: "\<not> word_before U (rev L @ rev A, [])"
  proof (cases "L = []")
    case False
    with t(4) show ?thesis
      by (simp add: word_before_rev ends_word_def is_word_alnum_or_underscore)
  next
    case True
    show ?thesis
    proof (cases "A = []")
      case True
      with \<open>L = []\<close> show ?thesis by simp
    next
      case False
      with t(2) \<open>L = []\<close> word_before_rev [of A U "[]" "[]"] show ?thesis
        by (simp add: not_win_char_not_word)
    qed
  qed
  have "file_txt \<in> set (re_findall (win_path_re U) (A @ L @ file_txt @ R @ Z))"
    using win_path_re_yields t(2)
  proof (rule findall_token)
    fix L1 L2
    assume "L = L1 @ L2" "L2 \<noteq> []"
    then show "win_path_re U (rev L1 @ rev A, L2 @ file_txt @ R @ Z) = []"
      using t(3) by (rule win_no_drive_start)
  next
    show "first (win_path_re U) (rev L @ rev A, file_txt @ R @ Z) =
            Some (rev file_txt @ rev L @ rev A, R @ Z)"
      using t(5,6) nw by (rule win_first)
  qed
  with t(1) show ?thesis by simp
qed

text \<open>
  C7, as the code has it. For every text \<^verbatim>\<open>file_paths\<close> is one sorted list without
  duplicates of the matches of the Unix-style and of the Windows-style pattern together.
  It contains \<^verbatim>\<open>/var/log/app.log\<close> when that path is followed by a space, tabulator,
  newline, carriage return or the end of the text, and no slash stands between it and
  the last such character before it. It contains \<^verbatim>\<open>C:\Users\test\file.txt\<close> when no
  word character follows that path on its line, none stands right before it, and no
  drive-letter start at a word boundary stands before it on its line.
\<close>

theorem mixed_path_styles:
  "sorted (file_paths (extract_indicators U (Some text))) \<and>
   distinct (file_paths (extract_indicators U (Some text))) \<and>
   set (file_paths (extract_indicators U (Some text))) =
     set (re_findall unix_path_re text) \<union> set (re_findall (win_path_re U) text) \<and>
   (app_log_delimited text \<longrightarrow> app_log \<in> set (file_paths (extract_indicators U (Some text)))) \<and>
   (file_txt_ends_line U text \<longrightarrow>
      file_txt \<in> set (file_paths (extract_indicators U (Some text))))"
  by (simp add: file_paths_extract or_empty_def set_sorted_set sorted_sorted_set
      distinct_sorted_set app_log_found file_txt_found)

theorem mixed_path_styles_witness:
  "app_log \<in> set (file_paths (extract_indicators ucd_fragment
     (Some (app_log @ py '' 12:00:01 ERROR: '' @ file_txt @ py ''.'')))) \<and>
   file_txt \<in> set (file_paths (extract_indicators ucd_fragment
     (Some (app_log @ py '' 12:00:01 ERROR: '' @ file_txt @ py ''.''))))"
proof -
  let ?text = "app_log @ py '' 12:00:01 ERROR: '' @ file_txt @ py ''.''"
  let ?Z = "py '' 12:00:01 ERROR: '' @ file_txt @ py ''.''"
  let ?L = "app_log @ py '' 12:00:01 ERROR: ''"
  have 1: "app_log_delimited ?text"
    unfolding app_log_delimited_def
  proof (intro exI conjI)
    show "?text = [] @ [] @ app_log @ ?Z" by simp
    show "[] = [] \<or> \<not> unix_char (last [])" by simp
    show "47 \<notin> set []" by simp
    show "?Z = [] \<or> \<not> unix_char (hd ?Z)" by (simp add: py_def unix_char_def)
  qed
  have "92 \<notin> set ?L" by (simp add: app_log_def py_def)
  have nd: "\<forall>La x Lb. ?L = La @ x # 58 # 92 # Lb \<and> letter x \<longrightarrow> ends_word ucd_fragment La"
  proof (intro allI impI)
    fix La x Lb
    assume "?L = La @ x # 58 # 92 # Lb \<and> letter x"
    then have "set ?L = set (La @ x # 58 # 92 # Lb)" by (elim conjE) (erule arg_cong)
    then have "92 \<in> set ?L" by (simp only:) simp
    with \<open>92 \<notin> set ?L\<close> show "ends_word ucd_fragment La" by (rule notE)
  qed
  have 2: "file_txt_ends_line ucd_fragment ?text"
    unfolding file_txt_ends_line_def
  proof (intro exI conjI)
    show "?text = [] @ ?L @ file_txt @ py ''.'' @ []" by simp
    show "[] = [] \<or> \<not> win_char (last [])" by simp
    show "\<forall>La x Lb. ?L = La @ x # 58 # 92 # Lb \<and> letter x \<longrightarrow> ends_word ucd_fragment La"
      by (rule nd)
    show "\<not> ends_word ucd_fragment ?L"
      by (simp add: ends_word_def alnum_or_underscore_def py_def class_eval)
    show "list_all (\<lambda>c. win_char c \<and> \<not> alnum_or_underscore ucd_fragment c) (py ''.'')"
      by (simp add: alnum_or_underscore_def py_def class_eval)
    show "[] = [] \<or> \<not> win_char (hd [])" by simp
  qed
  note m = mixed_path_styles [of ucd_fragment ?text, THEN conjunct2, THEN conjunct2,
    THEN conjunct2]
  from m [THEN conjunct1, THEN mp, OF 1] m [THEN conjunct2, THEN mp, OF 2]
  show ?thesis by (rule conjI)
qed

end
